theory Spec2Isabelle
  imports Main "HOL-Library.Word"
begin

unbundle bit_operations_syntax

section \<open>Database keys and their successor (eosio/database.hpp)\<close>

text \<open>
  \<^verbatim>\<open>inline bool increment_key(uint8_t& key) { return !++key; }\<close> and its
  overloads for \<^verbatim>\<open>uint16_t\<close>, \<^verbatim>\<open>uint32_t\<close>, \<^verbatim>\<open>uint64_t\<close> and \<^verbatim>\<open>uint128_t\<close>
  have one body; the width is the type parameter of the word. The key is passed by
  reference: the model returns the flag together with the updated key.
\<close>

definition increment_key :: "'a::len word \<Rightarrow> bool \<times> 'a word" where
  "increment_key key = (let key' = key + 1 in (key' = 0, key'))"

text \<open>\<^verbatim>\<open>struct name { uint64_t value; }\<close>\<close>

record name =
  name_value :: "64 word"

definition increment_key_name :: "name \<Rightarrow> bool \<times> name" where
  "increment_key_name key =
     (let (wrapped, v) = increment_key (name_value key) in (wrapped, key\<lparr>name_value := v\<rparr>))"

text \<open>
  Modelled from the spec: the type \<^verbatim>\<open>eosio::checksum256\<close> is declared outside the
  files at hand. \<^verbatim>\<open>increment_key\<close> reaches it through \<^verbatim>\<open>key.data()[0]\<close> and
  \<^verbatim>\<open>key.data()[1]\<close>, two \<^verbatim>\<open>uint128_t\<close> words; the spec orders a digest by its
  big-endian encoding, so word 0 is the more significant one.
\<close>

record checksum256 =
  data0 :: "128 word"
  data1 :: "128 word"

text \<open>
  \<^verbatim>\<open>return increment_key(key.data()[1]) && increment_key(key.data()[0]);\<close>
  The right operand of \<^verbatim>\<open>&&\<close> runs only when the left one returned true.
\<close>

definition increment_key_checksum256 :: "checksum256 \<Rightarrow> bool \<times> checksum256" where
  "increment_key_checksum256 key =
     (let (w1, d1) = increment_key (data1 key); key1 = key\<lparr>data1 := d1\<rparr> in
      if w1 then (let (w0, d0) = increment_key (data0 key1) in (w0, key1\<lparr>data0 := d0\<rparr>))
      else (False, key1))"

text \<open>
  \<^verbatim>\<open>query_action_trace_executed_range_name_receiver_account_block_trans_action::key\<close>,
  fields in declared order.
\<close>

record key =
  key_name :: name
  receipt_receiver :: name
  account :: name
  block_index :: "32 word"
  transaction_id :: checksum256
  action_index :: "32 word"

definition increment_key_at_e_nra :: "key \<Rightarrow> bool \<times> key" where
  "increment_key_at_e_nra k =
     (let (w6, v6) = increment_key (action_index k); k6 = k\<lparr>action_index := v6\<rparr> in
      if \<not> w6 then (False, k6) else
      let (w5, v5) = increment_key_checksum256 (transaction_id k6);
          k5 = k6\<lparr>transaction_id := v5\<rparr> in
      if \<not> w5 then (False, k5) else
      let (w4, v4) = increment_key (block_index k5); k4 = k5\<lparr>block_index := v4\<rparr> in
      if \<not> w4 then (False, k4) else
      let (w3, v3) = increment_key_name (account k4); k3 = k4\<lparr>account := v3\<rparr> in
      if \<not> w3 then (False, k3) else
      let (w2, v2) = increment_key_name (receipt_receiver k3);
          k2 = k3\<lparr>receipt_receiver := v2\<rparr> in
      if \<not> w2 then (False, k2) else
      let (w1, v1) = increment_key_name (key_name k2) in (w1, k2\<lparr>key_name := v1\<rparr>))"

text \<open>
  The order of keys. The source documents it (``The order of fields in \<^verbatim>\<open>key\<close>
  defines the order of query results''): field by field in declared order, each field
  as an unsigned number, a digest by its words 0 and 1.
\<close>

fun lex_less :: "nat list \<Rightarrow> nat list \<Rightarrow> bool" where
  "lex_less (x # xs) (y # ys) = (x < y \<or> (x = y \<and> lex_less xs ys))"
| "lex_less _ _ = False"

definition checksum256_fields :: "checksum256 \<Rightarrow> nat list" where
  "checksum256_fields c = [unat (data0 c), unat (data1 c)]"

definition checksum256_less :: "checksum256 \<Rightarrow> checksum256 \<Rightarrow> bool" where
  "checksum256_less a b = lex_less (checksum256_fields a) (checksum256_fields b)"

definition key_fields :: "key \<Rightarrow> nat list" where
  "key_fields k =
     [unat (name_value (key_name k)), unat (name_value (receipt_receiver k)),
      unat (name_value (account k)), unat (block_index k)]
     @ checksum256_fields (transaction_id k) @ [unat (action_index k)]"

definition key_less :: "key \<Rightarrow> key \<Rightarrow> bool" where
  "key_less a b = lex_less (key_fields a) (key_fields b)"

text \<open>The greatest values: every bit set.\<close>

definition max_checksum256 :: checksum256 where
  "max_checksum256 = \<lparr>data0 = - 1, data1 = - 1\<rparr>"

definition max_key :: key where
  "max_key = \<lparr>key_name = \<lparr>name_value = - 1\<rparr>, receipt_receiver = \<lparr>name_value = - 1\<rparr>,
     account = \<lparr>name_value = - 1\<rparr>, block_index = - 1, transaction_id = max_checksum256,
     action_index = - 1\<rparr>"

text \<open>A key whose four last fields are at their greatest value.\<close>

definition example_key :: key where
  "example_key = \<lparr>key_name = \<lparr>name_value = 1\<rparr>, receipt_receiver = \<lparr>name_value = 2\<rparr>,
     account = \<lparr>name_value = - 1\<rparr>, block_index = - 1, transaction_id = max_checksum256,
     action_index = - 1\<rparr>"

section \<open>The query host (wasm\_ql.cpp)\<close>

subsection \<open>Bytes, errors and the wire format\<close>

type_synonym byte = "8 word"
type_synonym bytes = "byte list"

text \<open>
  Every \<^verbatim>\<open>throw std::runtime_error(...)\<close> of the file is one constructor, named by the
  error kind the spec gives it: \<^verbatim>\<open>"bad memory"\<close>, \<^verbatim>\<open>"cb_alloc returned incorrect type"\<close>,
  \<^verbatim>\<open>"called abort"\<close>, the guest's assert message, \<^verbatim>\<open>"database is empty"\<close>,
  \<^verbatim>\<open>"too many fork events during request"\<close>, \<^verbatim>\<open>"unknown namespace: "\<close>. The last five
  are raised outside the file: by the interpreter, by the decoders, by the store, by
  the loading of a module, and by the dereference of an empty \<^verbatim>\<open>query_session\<close>.
\<close>

datatype error =
    bad_memory
  | bad_callback_return
  | called_abort
  | assert_message bytes
  | empty_database
  | too_many_forks
  | unknown_namespace name
  | guest_trap
  | stream_error
  | store_error
  | bad_module
  | null_session

text \<open>
  Modelled from the spec: the \<^verbatim>\<open>abieos\<close> encoders and decoders the driver calls are
  not among the files at hand. The spec gives the wire format: fixed-width integers
  little-endian, \<^verbatim>\<open>varuint32\<close> with 7 data bits per byte and the top bit as the
  continuation flag, a byte vector as a \<^verbatim>\<open>varuint32\<close> length and then the bytes.
  A decoder that runs out of input raises.
\<close>

function varuint32_bytes :: "32 word \<Rightarrow> bytes" where
  "varuint32_bytes v =
     (let b = ucast (v AND 0x7f); v' = drop_bit 7 v in
      if v' \<noteq> 0 then (b OR 0x80) # varuint32_bytes v' else [b])"
  by pat_completeness auto
termination
proof (relation "measure unat")
  fix v :: "32 word" and b :: byte and v'
  assume "v' = drop_bit 7 v" and "v' \<noteq> 0"
  then have "v \<noteq> 0"
    by auto
  then have "0 < unat v"
    by (simp add: unat_gt_0)
  then have "unat v div 2 ^ 7 < unat v"
    by simp
  moreover have "unat (drop_bit 7 v) = unat v div 2 ^ 7"
    unfolding unat_drop_bit_eq by (simp add: drop_bit_eq_div)
  ultimately show "(v', v) \<in> measure unat"
    using \<open>v' = drop_bit 7 v\<close> by simp
qed simp

definition push_varuint32 :: "bytes \<Rightarrow> 32 word \<Rightarrow> bytes" where
  "push_varuint32 bin v = bin @ varuint32_bytes v"

fun read_varuint32_from :: "nat \<Rightarrow> 32 word \<Rightarrow> bytes \<Rightarrow> error + (32 word \<times> bytes)" where
  "read_varuint32_from shift dest [] = Inl stream_error"
| "read_varuint32_from shift dest (b # bin) =
     (let dest' = dest OR push_bit shift (ucast (b AND 0x7f)) in
      if b AND 0x80 \<noteq> 0 then read_varuint32_from (shift + 7) dest' bin
      else Inr (dest', bin))"

definition read_varuint32 :: "bytes \<Rightarrow> error + (32 word \<times> bytes)" where
  "read_varuint32 bin = read_varuint32_from 0 0 bin"

definition read_input_buffer :: "bytes \<Rightarrow> error + (bytes \<times> bytes)" where
  "read_input_buffer bin =
     (case read_varuint32 bin of
        Inl e \<Rightarrow> Inl e
      | Inr (sz, rest) \<Rightarrow>
          if length rest < unat sz then Inl stream_error
          else Inr (take (unat sz) rest, drop (unat sz) rest))"

definition le_word :: "bytes \<Rightarrow> 'a::len word" where
  "le_word bs = foldr (\<lambda>b acc. ucast b OR push_bit 8 acc) bs 0"

definition read_name :: "bytes \<Rightarrow> error + (name \<times> bytes)" where
  "read_name bin =
     (if length bin < 8 then Inl stream_error
      else Inr (\<lparr>name_value = le_word (take 8 bin)\<rparr>, drop 8 bin))"

definition u32_bytes :: "32 word \<Rightarrow> bytes" where
  "u32_bytes x = map (\<lambda>i. ucast (drop_bit (8 * i) x)) [0..<4]"

definition bytes_to_bin :: "bytes \<Rightarrow> bytes" where
  "bytes_to_bin bs = varuint32_bytes (of_nat (length bs)) @ bs"

text \<open>The name literals \<^verbatim>\<open>"local"_n\<close> and \<^verbatim>\<open>"legacy"_n\<close>, five bits a character.\<close>

definition local_n :: name where
  "local_n = \<lparr>name_value = 0x8d10688000000000\<rparr>"

definition legacy_n :: name where
  "legacy_n = \<lparr>name_value = 0x8a98647800000000\<rparr>"

subsection \<open>The state of a request thread\<close>

text \<open>
  The host's digest type, \<^verbatim>\<open>abieos::checksum256\<close>, is an array of 32 bytes in the field
  \<^verbatim>\<open>value\<close>; \<^verbatim>\<open>did_fork\<close> compares two of them with \<^verbatim>\<open>!=\<close>.
\<close>

record abieos_checksum256 =
  checksum_value :: bytes

record fill_status =
  head :: "32 word"
  head_id :: abieos_checksum256
  irreversible :: "32 word"
  irreversible_id :: abieos_checksum256
  first :: "32 word"

text \<open>
  The guest's linear memory, \<^verbatim>\<open>thread_state.wa\<close>. A guest pointer reaches the host as
  \<^verbatim>\<open>get_base_ptr<char>() + offset\<close>; the model counts addresses from that base.
  \<^verbatim>\<open>mem_size\<close> is the current size of the linear memory: the addresses from
  \<^verbatim>\<open>mem_size\<close> on are memory of the host process that does not belong to the guest.
  C++ pointers reach them all the same, so \<^verbatim>\<open>mem\<close> is defined on every address.
\<close>

record wasm_allocator =
  mem :: "nat \<Rightarrow> byte"
  mem_size :: nat

definition read_bytes :: "wasm_allocator \<Rightarrow> nat \<Rightarrow> nat \<Rightarrow> bytes" where
  "read_bytes w begin end = map (mem w) [begin..<end]"

definition memcpy :: "wasm_allocator \<Rightarrow> nat \<Rightarrow> bytes \<Rightarrow> wasm_allocator" where
  "memcpy w dest src =
     w\<lparr>mem := (\<lambda>a. if dest \<le> a \<and> a < dest + length src then src ! (a - dest) else mem w a)\<rparr>"

text \<open>
  What the driver does to the world outside, in order (not a variable of the code):
  a snapshot opened and released, a guest module run (under which session, the module
  of which name, with which bytes in \<^verbatim>\<open>thread_state.request\<close> for it to read), the
  reply buffer assigned by \<^verbatim>\<open>set_output_data\<close>, the answer of a fork check.
\<close>

datatype 's event =
    ev_open_snapshot 's
  | ev_release
  | ev_run_query "'s option" name bytes
  | ev_set_output bytes
  | ev_fork_check "'s option" bool

text \<open>
  \<^verbatim>\<open>wasm_ql::thread_state\<close>, by the fields the file uses. \<^verbatim>\<open>request\<close> is an
  \<^verbatim>\<open>input_buffer\<close>, the bytes from \<^verbatim>\<open>pos\<close> to \<^verbatim>\<open>end\<close>. \<^verbatim>\<open>console\<close> stands for
  \<^verbatim>\<open>shared->console\<close>, \<^verbatim>\<open>db\<close> for the state of the store behind
  \<^verbatim>\<open>shared->db_iface\<close> (it changes as the chain moves), \<^verbatim>\<open>cerr\<close> for what was written
  to \<^verbatim>\<open>std::cerr\<close>, \<^verbatim>\<open>trace\<close> for the events so far.
\<close>

record ('s, 'w) thread_state =
  console :: bool
  db :: 'w
  wa :: wasm_allocator
  database_status :: bytes
  request :: bytes
  reply :: bytes
  query_session :: "'s option"
  fill_status :: fill_status
  cerr :: bytes
  trace :: "'s event list"

text \<open>
  The store, consumed through \<^verbatim>\<open>db_iface\<close> and the session it creates. Each call
  may find the store changed: it takes the store's state and returns the next one.
\<close>

record ('s, 'w) database_interface =
  create_query_session :: "'w \<Rightarrow> 's \<times> 'w"
  get_fill_status :: "'s \<Rightarrow> 'w \<Rightarrow> fill_status \<times> 'w"
  get_block_id :: "'s \<Rightarrow> 32 word \<Rightarrow> 'w \<Rightarrow> abieos_checksum256 option \<times> 'w"
  session_query_database :: "'s \<Rightarrow> bytes \<Rightarrow> 32 word \<Rightarrow> 'w \<Rightarrow> (error + bytes) \<times> 'w"

subsection \<open>The guest\<close>

text \<open>
  The interpreter is outside the file. A run of a guest export is the sequence of its
  steps: before each host call the guest has computed on its own memory
  (\<^verbatim>\<open>prepare\<close>), or it traps. \<^verbatim>\<open>func_table\<close> is \<^verbatim>\<open>execute_func_table\<close>: the guest
  function at a table index applied to two \<^verbatim>\<open>i32\<close> arguments, which returns a
  value or none, may change the memory, and may raise.
\<close>

datatype wasm_value =
    i32_const "32 word"
  | i64_const "64 word"
  | f32_const "32 word"
  | f64_const "64 word"

fun is_i32 :: "wasm_value \<Rightarrow> bool" where
  "is_i32 (i32_const _) = True"
| "is_i32 _ = False"

fun to_ui32 :: "wasm_value \<Rightarrow> 32 word" where
  "to_ui32 (i32_const v) = v"
| "to_ui32 (i64_const v) = ucast v"
| "to_ui32 (f32_const v) = v"
| "to_ui32 (f64_const v) = ucast v"

datatype host_call =
    call_abort
  | call_eosio_assert_message bool "32 word" "32 word"
  | call_get_database_status "32 word" "32 word"
  | call_get_input_data "32 word" "32 word"
  | call_set_output_data "32 word" "32 word"
  | call_query_database "32 word" "32 word" "32 word" "32 word"
  | call_print_range "32 word" "32 word"

datatype guest_step =
    host_step "wasm_allocator \<Rightarrow> wasm_allocator" host_call
  | trap_step

record guest_module =
  func_table ::
    "32 word \<Rightarrow> 32 word \<Rightarrow> 32 word \<Rightarrow> wasm_allocator
      \<Rightarrow> error + (wasm_value option \<times> wasm_allocator)"
  export_initialize :: "guest_step list"
  export_run_query :: "guest_step list"

text \<open>
  \<^verbatim>\<open>read_wasm(wasm_dir + "/" + short_name + "-server.wasm")\<close> and the instantiation:
  the module of that name as it will run from the given state, or an error.
\<close>

type_synonym ('s, 'w) wasm_dir = "name \<Rightarrow> ('s, 'w) thread_state \<Rightarrow> error + guest_module"

subsection \<open>struct callbacks\<close>

definition check_bounds :: "nat \<Rightarrow> nat \<Rightarrow> error + unit" where
  "check_bounds begin end = (if begin > end then Inl bad_memory else Inr ())"

definition alloc ::
  "guest_module \<Rightarrow> 32 word \<Rightarrow> 32 word \<Rightarrow> 32 word \<Rightarrow> ('s, 'w) thread_state
    \<Rightarrow> (error + nat) \<times> ('s, 'w) thread_state" where
  "alloc g cb_alloc_data cb_alloc sz ts =
     (case func_table g cb_alloc cb_alloc_data sz (wa ts) of
        Inl e \<Rightarrow> (Inl e, ts)
      | Inr (result, wa') \<Rightarrow>
          (let ts' = ts\<lparr>wa := wa'\<rparr> in
           case result of
             None \<Rightarrow> (Inl bad_callback_return, ts')
           | Some v \<Rightarrow>
               if \<not> is_i32 v then (Inl bad_callback_return, ts')
               else
                 (let begin = unat (to_ui32 v) in
                  case check_bounds begin (begin + unat sz) of
                    Inl e \<Rightarrow> (Inl e, ts')
                  | Inr _ \<Rightarrow> (Inr begin, ts'))))"

definition abort :: "('s, 'w) thread_state \<Rightarrow> (error + unit) \<times> ('s, 'w) thread_state" where
  "abort ts = (Inl called_abort, ts)"

definition eosio_assert_message ::
  "bool \<Rightarrow> nat \<Rightarrow> nat \<Rightarrow> ('s, 'w) thread_state \<Rightarrow> (error + unit) \<times> ('s, 'w) thread_state" where
  "eosio_assert_message test msg msg_len ts =
     (if \<not> test then (Inl (assert_message (read_bytes (wa ts) msg (msg + msg_len))), ts)
      else (Inr (), ts))"

definition get_database_status ::
  "guest_module \<Rightarrow> 32 word \<Rightarrow> 32 word \<Rightarrow> ('s, 'w) thread_state
    \<Rightarrow> (error + unit) \<times> ('s, 'w) thread_state" where
  "get_database_status g cb_alloc_data cb_alloc ts =
     (case alloc g cb_alloc_data cb_alloc (of_nat (length (database_status ts))) ts of
        (Inl e, ts') \<Rightarrow> (Inl e, ts')
      | (Inr data, ts') \<Rightarrow> (Inr (), ts'\<lparr>wa := memcpy (wa ts') data (database_status ts')\<rparr>))"

definition get_input_data ::
  "guest_module \<Rightarrow> 32 word \<Rightarrow> 32 word \<Rightarrow> ('s, 'w) thread_state
    \<Rightarrow> (error + unit) \<times> ('s, 'w) thread_state" where
  "get_input_data g cb_alloc_data cb_alloc ts =
     (case alloc g cb_alloc_data cb_alloc (of_nat (length (request ts))) ts of
        (Inl e, ts') \<Rightarrow> (Inl e, ts')
      | (Inr data, ts') \<Rightarrow> (Inr (), ts'\<lparr>wa := memcpy (wa ts') data (request ts')\<rparr>))"

definition set_output_data ::
  "nat \<Rightarrow> nat \<Rightarrow> ('s, 'w) thread_state \<Rightarrow> (error + unit) \<times> ('s, 'w) thread_state" where
  "set_output_data begin end ts =
     (case check_bounds begin end of
        Inl e \<Rightarrow> (Inl e, ts)
      | Inr _ \<Rightarrow>
          (let bs = read_bytes (wa ts) begin end in
           (Inr (), ts\<lparr>reply := bs, trace := trace ts @ [ev_set_output bs]\<rparr>)))"

definition query_database ::
  "('s, 'w) database_interface \<Rightarrow> guest_module \<Rightarrow> nat \<Rightarrow> nat \<Rightarrow> 32 word \<Rightarrow> 32 word
    \<Rightarrow> ('s, 'w) thread_state \<Rightarrow> (error + unit) \<times> ('s, 'w) thread_state" where
  "query_database iface g req_begin req_end cb_alloc_data cb_alloc ts =
     (case check_bounds req_begin req_end of
        Inl e \<Rightarrow> (Inl e, ts)
      | Inr _ \<Rightarrow>
          (case query_session ts of
             None \<Rightarrow> (Inl null_session, ts)
           | Some s \<Rightarrow>
               (case session_query_database iface s (read_bytes (wa ts) req_begin req_end)
                       (head (fill_status ts)) (db ts) of
                  (Inl e, w') \<Rightarrow> (Inl e, ts\<lparr>db := w'\<rparr>)
                | (Inr result, w') \<Rightarrow>
                    (case alloc g cb_alloc_data cb_alloc (of_nat (length result))
                            (ts\<lparr>db := w'\<rparr>) of
                       (Inl e, ts') \<Rightarrow> (Inl e, ts')
                     | (Inr data, ts') \<Rightarrow>
                         (Inr (), ts'\<lparr>wa := memcpy (wa ts') data result\<rparr>)))))"

definition print_range ::
  "nat \<Rightarrow> nat \<Rightarrow> ('s, 'w) thread_state \<Rightarrow> (error + unit) \<times> ('s, 'w) thread_state" where
  "print_range begin end ts =
     (case check_bounds begin end of
        Inl e \<Rightarrow> (Inl e, ts)
      | Inr _ \<Rightarrow>
          if console ts then (Inr (), ts\<lparr>cerr := cerr ts @ read_bytes (wa ts) begin end\<rparr>)
          else (Inr (), ts))"

text \<open>
  \<^verbatim>\<open>register_callbacks\<close>: the host function a guest import resolves to. A pointer
  argument arrives as the guest's \<^verbatim>\<open>i32\<close> offset added to the base of the memory.
\<close>

fun host_function ::
  "('s, 'w) database_interface \<Rightarrow> guest_module \<Rightarrow> host_call \<Rightarrow> ('s, 'w) thread_state
    \<Rightarrow> (error + unit) \<times> ('s, 'w) thread_state" where
  "host_function iface g call_abort ts = abort ts"
| "host_function iface g (call_eosio_assert_message test msg msg_len) ts =
     eosio_assert_message test (unat msg) (unat msg_len) ts"
| "host_function iface g (call_get_database_status cb_alloc_data cb_alloc) ts =
     get_database_status g cb_alloc_data cb_alloc ts"
| "host_function iface g (call_get_input_data cb_alloc_data cb_alloc) ts =
     get_input_data g cb_alloc_data cb_alloc ts"
| "host_function iface g (call_set_output_data begin end) ts =
     set_output_data (unat begin) (unat end) ts"
| "host_function iface g (call_query_database req_begin req_end cb_alloc_data cb_alloc) ts =
     query_database iface g (unat req_begin) (unat req_end) cb_alloc_data cb_alloc ts"
| "host_function iface g (call_print_range begin end) ts =
     print_range (unat begin) (unat end) ts"

fun run_step ::
  "('s, 'w) database_interface \<Rightarrow> guest_module \<Rightarrow> guest_step \<Rightarrow> ('s, 'w) thread_state
    \<Rightarrow> (error + unit) \<times> ('s, 'w) thread_state" where
  "run_step iface g trap_step ts = (Inl guest_trap, ts)"
| "run_step iface g (host_step prepare c) ts = host_function iface g c (ts\<lparr>wa := prepare (wa ts)\<rparr>)"

fun run_export ::
  "('s, 'w) database_interface \<Rightarrow> guest_module \<Rightarrow> guest_step list \<Rightarrow> ('s, 'w) thread_state
    \<Rightarrow> (error + unit) \<times> ('s, 'w) thread_state" where
  "run_export iface g [] ts = (Inr (), ts)"
| "run_export iface g (st # steps) ts =
     (case run_step iface g st ts of
        (Inl e, ts') \<Rightarrow> (Inl e, ts')
      | (Inr _, ts') \<Rightarrow> run_export iface g steps ts')"

subsection \<open>The driver\<close>

definition fill_context_data :: "('s, 'w) thread_state \<Rightarrow> ('s, 'w) thread_state" where
  "fill_context_data ts =
     ts\<lparr>database_status :=
          u32_bytes (head (fill_status ts)) @ checksum_value (head_id (fill_status ts))
          @ u32_bytes (irreversible (fill_status ts))
          @ checksum_value (irreversible_id (fill_status ts))
          @ u32_bytes (first (fill_status ts))\<rparr>"

definition did_fork ::
  "('s, 'w) database_interface \<Rightarrow> ('s, 'w) thread_state
    \<Rightarrow> (error + bool) \<times> ('s, 'w) thread_state" where
  "did_fork iface ts =
     (case query_session ts of
        None \<Rightarrow> (Inl null_session, ts)
      | Some s \<Rightarrow>
          (let (id, w') = get_block_id iface s (head (fill_status ts)) (db ts);
               forked =
                 (case id of
                    None \<Rightarrow> True
                  | Some i \<Rightarrow>
                      if checksum_value i \<noteq> checksum_value (head_id (fill_status ts))
                      then True else False)
           in (Inr forked,
               ts\<lparr>db := w', trace := trace ts @ [ev_fork_check (query_session ts) forked]\<rparr>)))"

text \<open>The scoped exit of an attempt: \<^verbatim>\<open>thread_state.query_session.reset()\<close>.\<close>

definition scoped_exit :: "('s, 'w) thread_state \<Rightarrow> ('s, 'w) thread_state" where
  "scoped_exit ts = ts\<lparr>query_session := None, trace := trace ts @ [ev_release]\<rparr>"

text \<open>
  The head of the loop body of \<^verbatim>\<open>retry_loop\<close>: the session is created and its fill
  status read into the thread state.
\<close>

definition open_snapshot ::
  "('s, 'w) database_interface \<Rightarrow> ('s, 'w) thread_state \<Rightarrow> ('s, 'w) thread_state" where
  "open_snapshot iface ts =
     (let (s, w1) = create_query_session iface (db ts);
          ts1 = ts\<lparr>query_session := Some s, db := w1,
                   trace := trace ts @ [ev_open_snapshot s]\<rparr>;
          (fs, w2) = get_fill_status iface s (db ts1)
      in ts1\<lparr>fill_status := fs, db := w2\<rparr>)"

text \<open>
  \<^verbatim>\<open>retry_loop\<close>. The callable \<^verbatim>\<open>f\<close> works on the thread state and on what it
  captured by reference (\<^verbatim>\<open>'c\<close>). \<^verbatim>\<open>num_tries\<close> starts at 0 in the source; the
  loop ends because \<^verbatim>\<open>++num_tries >= 4\<close> throws.
\<close>

function retry_loop ::
  "('s, 'w) database_interface
    \<Rightarrow> ('c \<Rightarrow> ('s, 'w) thread_state \<Rightarrow> (error + bool) \<times> 'c \<times> ('s, 'w) thread_state)
    \<Rightarrow> nat \<Rightarrow> 'c \<Rightarrow> ('s, 'w) thread_state
    \<Rightarrow> (error + unit) \<times> 'c \<times> ('s, 'w) thread_state" where
  "retry_loop iface f num_tries c ts =
     (let ts2 = open_snapshot iface ts
      in if head (fill_status ts2) = 0 then (Inl empty_database, c, scoped_exit ts2)
         else
           (case f c (fill_context_data ts2) of
              (Inl e, c', ts3) \<Rightarrow> (Inl e, c', scoped_exit ts3)
            | (Inr True, c', ts3) \<Rightarrow> (Inr (), c', scoped_exit ts3)
            | (Inr False, c', ts3) \<Rightarrow>
                if num_tries + 1 \<ge> 4 then (Inl too_many_forks, c', scoped_exit ts3)
                else retry_loop iface f (num_tries + 1) c' (scoped_exit ts3)))"
  by pat_completeness auto
termination
  by (relation "measure (\<lambda>(iface, f, num_tries, c, ts). 4 - num_tries)") auto

definition run_query ::
  "('s, 'w) wasm_dir \<Rightarrow> ('s, 'w) database_interface \<Rightarrow> ('s, 'w) thread_state \<Rightarrow> name
    \<Rightarrow> (error + unit) \<times> ('s, 'w) thread_state" where
  "run_query wasm_dir iface ts short_name =
     (let ts0 = ts\<lparr>trace := trace ts
                  @ [ev_run_query (query_session ts) short_name (request ts)]\<rparr> in
      case wasm_dir short_name ts of
        Inl e \<Rightarrow> (Inl e, ts0)
      | Inr g \<Rightarrow>
          (case run_export iface g (export_initialize g) ts0 of
             (Inl e, ts1) \<Rightarrow> (Inl e, ts1)
           | (Inr _, ts1) \<Rightarrow> run_export iface g (export_run_query g) ts1))"

text \<open>
  The loop of \<^verbatim>\<open>query\<close> over the sub-requests; the first argument counts the
  iterations that remain, \<^verbatim>\<open>num_requests - request_index\<close>. The result is what the
  lambda returns, with the staged \<^verbatim>\<open>result\<close>.
\<close>

fun sub_requests ::
  "('s, 'w) wasm_dir \<Rightarrow> ('s, 'w) database_interface \<Rightarrow> nat \<Rightarrow> bytes \<Rightarrow> bytes
    \<Rightarrow> ('s, 'w) thread_state \<Rightarrow> (error + bool) \<times> bytes \<times> ('s, 'w) thread_state" where
  "sub_requests wasm_dir iface 0 request_bin result ts = (Inr True, result, ts)"
| "sub_requests wasm_dir iface (Suc n) request_bin result ts =
     (case read_input_buffer request_bin of
        Inl e \<Rightarrow> (Inl e, result, ts)
      | Inr (req, request_bin') \<Rightarrow>
          (case read_name req of
             Inl e \<Rightarrow> (Inl e, result, ts\<lparr>request := req\<rparr>)
           | Inr (ns_name, req1) \<Rightarrow>
               if ns_name \<noteq> local_n
               then (Inl (unknown_namespace ns_name), result, ts\<lparr>request := req1\<rparr>)
               else
                 (case read_name req1 of
                    Inl e \<Rightarrow> (Inl e, result, ts\<lparr>request := req1\<rparr>)
                  | Inr (short_name, req2) \<Rightarrow>
                      (case run_query wasm_dir iface (ts\<lparr>request := req2\<rparr>) short_name of
                         (Inl e, ts1) \<Rightarrow> (Inl e, result, ts1)
                       | (Inr _, ts1) \<Rightarrow>
                           (case did_fork iface ts1 of
                              (Inl e, ts2) \<Rightarrow> (Inl e, result, ts2)
                            | (Inr True, ts2) \<Rightarrow> (Inr False, result, ts2)
                            | (Inr False, ts2) \<Rightarrow>
                                sub_requests wasm_dir iface n request_bin'
                                  (push_varuint32 result (of_nat (length (reply ts2)))
                                   @ reply ts2)
                                  ts2)))))"

text \<open>The lambda of \<^verbatim>\<open>query\<close>; it captures the parameter \<^verbatim>\<open>request\<close> (here
  \<^verbatim>\<open>request_blob\<close>, the field of the thread state has the name) and \<^verbatim>\<open>result\<close>, which it
  clears before it stages the count.\<close>

definition query_attempt ::
  "('s, 'w) wasm_dir \<Rightarrow> ('s, 'w) database_interface \<Rightarrow> bytes \<Rightarrow> bytes
    \<Rightarrow> ('s, 'w) thread_state \<Rightarrow> (error + bool) \<times> bytes \<times> ('s, 'w) thread_state" where
  "query_attempt wasm_dir iface request_blob result ts =
     (case read_varuint32 request_blob of
        Inl e \<Rightarrow> (Inl e, result, ts)
      | Inr (num_requests, request_bin) \<Rightarrow>
          sub_requests wasm_dir iface (unat num_requests) request_bin
            (push_varuint32 [] num_requests) ts)"

definition query ::
  "('s, 'w) wasm_dir \<Rightarrow> ('s, 'w) database_interface \<Rightarrow> ('s, 'w) thread_state \<Rightarrow> bytes
    \<Rightarrow> (error + bytes) \<times> ('s, 'w) thread_state" where
  "query wasm_dir iface ts request_blob =
     (case retry_loop iface (query_attempt wasm_dir iface request_blob) 0 [] ts of
        (Inl e, result, ts') \<Rightarrow> (Inl e, ts')
      | (Inr _, result, ts') \<Rightarrow> (Inr result, ts'))"

text \<open>The lambda of \<^verbatim>\<open>legacy_query\<close> captures nothing it changes.\<close>

definition legacy_attempt ::
  "('s, 'w) wasm_dir \<Rightarrow> ('s, 'w) database_interface \<Rightarrow> unit \<Rightarrow> ('s, 'w) thread_state
    \<Rightarrow> (error + bool) \<times> unit \<times> ('s, 'w) thread_state" where
  "legacy_attempt wasm_dir iface u ts =
     (case run_query wasm_dir iface ts legacy_n of
        (Inl e, ts1) \<Rightarrow> (Inl e, u, ts1)
      | (Inr _, ts1) \<Rightarrow>
          (case did_fork iface ts1 of
             (Inl e, ts2) \<Rightarrow> (Inl e, u, ts2)
           | (Inr forked, ts2) \<Rightarrow> (Inr (\<not> forked), u, ts2)))"

definition legacy_query ::
  "('s, 'w) wasm_dir \<Rightarrow> ('s, 'w) database_interface \<Rightarrow> ('s, 'w) thread_state \<Rightarrow> bytes
    \<Rightarrow> bytes \<Rightarrow> (error + bytes) \<times> ('s, 'w) thread_state" where
  "legacy_query wasm_dir iface ts target request_bytes =
     (let req = bytes_to_bin target @ bytes_to_bin request_bytes in
      case retry_loop iface (legacy_attempt wasm_dir iface) 0 () (ts\<lparr>request := req\<rparr>) of
        (Inl e, u, ts') \<Rightarrow> (Inl e, ts')
      | (Inr _, u, ts') \<Rightarrow> (Inr (reply ts'), ts'))"

subsection \<open>Reading a trace\<close>

text \<open>The snapshots a trace opened, one for each attempt.\<close>

fun snapshots :: "'s event list \<Rightarrow> 's list" where
  "snapshots [] = []"
| "snapshots (ev_open_snapshot s # es) = s # snapshots es"
| "snapshots (_ # es) = snapshots es"

text \<open>The guest runs of a trace, each with the session it ran under.\<close>

fun runs :: "'s event list \<Rightarrow> ('s option \<times> name) list" where
  "runs [] = []"
| "runs (ev_run_query s n input # es) = (s, n) # runs es"
| "runs (_ # es) = runs es"

text \<open>The fork checks of a trace, each with the session it asked and its answer.\<close>

fun fork_checks :: "'s event list \<Rightarrow> ('s option \<times> bool) list" where
  "fork_checks [] = []"
| "fork_checks (ev_fork_check s b # es) = (s, b) # fork_checks es"
| "fork_checks (_ # es) = fork_checks es"

text \<open>The number of times the session was released.\<close>

fun releases :: "'s event list \<Rightarrow> nat" where
  "releases [] = 0"
| "releases (ev_release # es) = Suc (releases es)"
| "releases (_ # es) = releases es"

text \<open>
  The reply buffer after the events of a trace, from its content before them: the
  bytes of the last \<^verbatim>\<open>set_output_data\<close>, or the old content when there was none.
\<close>

fun buffer_after :: "bytes \<Rightarrow> 's event list \<Rightarrow> bytes" where
  "buffer_after buf [] = buf"
| "buffer_after buf (ev_set_output b # es) = buffer_after b es"
| "buffer_after buf (_ # es) = buffer_after buf es"

text \<open>
  The reply buffer after each of a sequence of guest runs, from its content before the
  first and the bytes each run handed to \<^verbatim>\<open>set_output_data\<close>, call by call: a run that
  wrote leaves the bytes of its last call, a run that did not leaves the buffer as it
  found it.
\<close>

fun blobs_from :: "bytes \<Rightarrow> bytes list list \<Rightarrow> bytes list" where
  "blobs_from buf [] = []"
| "blobs_from buf (outs # rest) = last (buf # outs) # blobs_from (last (buf # outs)) rest"

text \<open>The wire form of a reply: the count, then each blob behind its length.\<close>

definition reply_frame :: "bytes \<Rightarrow> bytes" where
  "reply_frame b = varuint32_bytes (of_nat (length b)) @ b"

definition reply_encoding :: "32 word \<Rightarrow> bytes list \<Rightarrow> bytes" where
  "reply_encoding n blobs = varuint32_bytes n @ concat (map reply_frame blobs)"

subsection \<open>What a guest run can do to the thread state\<close>

text \<open>
  The effect of host calls on the fields the driver reads: the trace grows by
  \<^verbatim>\<open>set_output_data\<close> events only, the reply buffer follows them, and the session,
  the fill status and the request stay.
\<close>

definition guest_effect ::
  "('s, 'w) thread_state \<Rightarrow> ('s, 'w) thread_state \<Rightarrow> bytes list \<Rightarrow> bool" where
  "guest_effect ts ts' outs \<longleftrightarrow>
     trace ts' = trace ts @ map ev_set_output outs
     \<and> reply ts' = last (reply ts # outs)
     \<and> query_session ts' = query_session ts \<and> fill_status ts' = fill_status ts
     \<and> request ts' = request ts"

subsection \<open>The sub-requests of a request and the passes of an attempt\<close>

text \<open>
  For comparison, in the words of the spec: a request is a count \<^verbatim>\<open>n\<close> and then
  \<^verbatim>\<open>n\<close> sub-requests, each a block of bytes that holds the namespace \<^verbatim>\<open>local\<close>, the
  short name of a guest module and the payload for that guest. \<^verbatim>\<open>decode_sub_request\<close>
  reads one sub-request, its short name and payload, and returns the rest of the
  request with it; \<^verbatim>\<open>decode_sub_requests\<close> reads the first \<^verbatim>\<open>n\<close> of them in order.
\<close>

definition decode_sub_request :: "bytes \<Rightarrow> ((name \<times> bytes) \<times> bytes) option" where
  "decode_sub_request bin =
     (case read_input_buffer bin of
        Inl e \<Rightarrow> None
      | Inr (req, bin') \<Rightarrow>
          (case read_name req of
             Inl e \<Rightarrow> None
           | Inr (ns_name, req1) \<Rightarrow>
               if ns_name \<noteq> local_n then None
               else
                 (case read_name req1 of
                    Inl e \<Rightarrow> None
                  | Inr (short_name, payload) \<Rightarrow> Some ((short_name, payload), bin'))))"

fun decode_sub_requests :: "nat \<Rightarrow> bytes \<Rightarrow> (name \<times> bytes) list option" where
  "decode_sub_requests 0 bin = Some []"
| "decode_sub_requests (Suc n) bin =
     (case decode_sub_request bin of
        None \<Rightarrow> None
      | Some (req, bin') \<Rightarrow>
          (case decode_sub_requests n bin' of
             None \<Rightarrow> None
           | Some reqs \<Rightarrow> Some (req # reqs)))"

text \<open>
  One pass of the loop over the sub-requests, as the trace shows it: the sub-request
  it served (short name and payload), the bytes of each \<^verbatim>\<open>set_output_data\<close> call of
  the guest run in order, and how the pass ended: with the answer of the fork check,
  or with none because an error was raised. Its events are the run, under the session
  of the attempt, the calls, and the fork check if there was one.
\<close>

record pass =
  served :: "name \<times> bytes"
  written :: "bytes list"
  ending :: "bool option"

definition pass_events :: "'s option \<Rightarrow> pass \<Rightarrow> 's event list" where
  "pass_events s p =
     ev_run_query s (fst (served p)) (snd (served p))
     # map ev_set_output (written p)
     @ (case ending p of None \<Rightarrow> [] | Some forked \<Rightarrow> [ev_fork_check s forked])"

definition attempt_body :: "'s option \<Rightarrow> pass list \<Rightarrow> 's event list" where
  "attempt_body s ps = concat (map (pass_events s) ps)"

text \<open>
  The trace of a whole attempt under the snapshot \<^verbatim>\<open>s\<close>, and of a sequence of
  attempts.
\<close>

definition attempt_trace :: "'s \<Rightarrow> pass list \<Rightarrow> 's event list" where
  "attempt_trace s ps = ev_open_snapshot s # attempt_body (Some s) ps @ [ev_release]"

definition attempts_trace :: "('s \<times> pass list) list \<Rightarrow> 's event list" where
  "attempts_trace atts = concat (map (\<lambda>(s, ps). attempt_trace s ps) atts)"

text \<open>
  The passes of an attempt of \<^verbatim>\<open>query\<close> on a request: they serve the sub-requests of
  the request from the first, in order and with none left out, and every pass but the
  last ended in a negative fork check. The attempt ended in a detected fork when the
  last pass ended in a positive one; it served the whole request when there are as
  many passes as the request counts sub-requests and all ended in a negative check.
\<close>

definition attempt_passes :: "bytes \<Rightarrow> pass list \<Rightarrow> bool" where
  "attempt_passes request_blob ps \<longleftrightarrow>
     (case read_varuint32 request_blob of
        Inl e \<Rightarrow> ps = []
      | Inr (n, request_bin) \<Rightarrow>
          length ps \<le> unat n
          \<and> decode_sub_requests (length ps) request_bin = Some (map served ps))
     \<and> list_all (\<lambda>p. ending p = Some False) (butlast ps)"

definition forked_passes :: "pass list \<Rightarrow> bool" where
  "forked_passes ps \<longleftrightarrow> ps \<noteq> [] \<and> ending (last ps) = Some True"

definition committed_passes :: "bytes \<Rightarrow> pass list \<Rightarrow> bool" where
  "committed_passes request_blob ps \<longleftrightarrow>
     (case read_varuint32 request_blob of
        Inl e \<Rightarrow> False
      | Inr (n, request_bin) \<Rightarrow> length ps = unat n)
     \<and> list_all (\<lambda>p. ending p = Some False) ps"

text \<open>The one pass of an attempt of \<^verbatim>\<open>legacy_query\<close>.\<close>

definition legacy_pass :: "bytes \<Rightarrow> bytes list \<Rightarrow> bool option \<Rightarrow> pass" where
  "legacy_pass req outs e = \<lparr>served = (legacy_n, req), written = outs, ending = e\<rparr>"

subsection \<open>A store and guests to run the driver on\<close>

text \<open>
  A store whose state is a clock that every call advances; a session is the time of its
  creation. The head is block 100 with id \<^verbatim>\<open>id_a\<close>; \<^verbatim>\<open>get_block_id\<close> answers
  \<^verbatim>\<open>id_b\<close> at the times \<^verbatim>\<open>forked\<close> holds, and \<^verbatim>\<open>id_a\<close> otherwise.
\<close>

definition id_a :: abieos_checksum256 where
  "id_a = \<lparr>checksum_value = replicate 32 0x11\<rparr>"

definition id_b :: abieos_checksum256 where
  "id_b = \<lparr>checksum_value = replicate 32 0x22\<rparr>"

definition clock_store :: "32 word \<Rightarrow> (nat \<Rightarrow> bool) \<Rightarrow> (nat, nat) database_interface" where
  "clock_store h forked =
     \<lparr>create_query_session = (\<lambda>w. (w, w + 1)),
      get_fill_status = (\<lambda>s w.
        (\<lparr>head = h, head_id = id_a, irreversible = h, irreversible_id = id_a, first = 1\<rparr>,
         w + 1)),
      get_block_id = (\<lambda>s n w. (if forked w then Some id_b else Some id_a, w + 1)),
      session_query_database = (\<lambda>s req h w. (Inr [], w + 1))\<rparr>"

text \<open>
  Two guests. The writer puts its bytes at address 0 and hands them to
  \<^verbatim>\<open>set_output_data\<close>; the silent one returns without a host call. The allocation
  callback of both answers offset 16.
\<close>

definition writer :: "bytes \<Rightarrow> guest_module" where
  "writer bs =
     \<lparr>func_table = (\<lambda>cb_alloc cb_alloc_data sz w. Inr (Some (i32_const 16), w)),
      export_initialize = [],
      export_run_query =
        [host_step (\<lambda>w. memcpy w 0 bs) (call_set_output_data 0 (of_nat (length bs)))]\<rparr>"

definition silent :: guest_module where
  "silent =
     \<lparr>func_table = (\<lambda>cb_alloc cb_alloc_data sz w. Inr (Some (i32_const 16), w)),
      export_initialize = [],
      export_run_query = []\<rparr>"

text \<open>
  The module directory: name 1 is the writer of the byte 7, name 2 the silent guest,
  name 3 the writer of the bytes 8 and 9; no other module exists.
\<close>

definition modules :: "(nat, nat) wasm_dir" where
  "modules short_name ts =
     (if name_value short_name = 1 then Inr (writer [7])
      else if name_value short_name = 2 then Inr silent
      else if name_value short_name = 3 then Inr (writer [8, 9])
      else Inl bad_module)"

text \<open>
  A module directory whose guest depends on what it finds in the store: under the
  snapshot 0 the guest of any name writes the byte 7, under any other snapshot it
  returns without a host call.
\<close>

definition fickle :: "(nat, nat) wasm_dir" where
  "fickle short_name ts =
     (if query_session ts = Some 0 then Inr (writer [7]) else Inr silent)"

text \<open>
  A sub-request with an empty payload: sixteen bytes, the name \<^verbatim>\<open>local\<close> and a
  short name below 256, both little-endian.
\<close>

definition sub_request :: "byte \<Rightarrow> bytes" where
  "sub_request short_name =
     [16, 0x00, 0x00, 0x00, 0x00, 0x80, 0x68, 0x10, 0x8d, short_name, 0, 0, 0, 0, 0, 0, 0]"

definition idle :: "(nat, nat) thread_state" where
  "idle =
     \<lparr>console = False, db = 0, wa = \<lparr>mem = (\<lambda>a. 0), mem_size = 65536\<rparr>,
      database_status = [], request = [], reply = [],
      query_session = None,
      fill_status =
        \<lparr>head = 0, head_id = \<lparr>checksum_value = []\<rparr>, irreversible = 0,
         irreversible_id = \<lparr>checksum_value = []\<rparr>, first = 0\<rparr>,
      cerr = [], trace = []\<rparr>"

text \<open>The thread state at the start of the first attempt on that store.\<close>

definition first_attempt :: "(nat \<Rightarrow> bool) \<Rightarrow> (nat, nat) thread_state" where
  "first_attempt forked = fill_context_data (open_snapshot (clock_store 100 forked) idle)"

text \<open>
  A thread state whose guest has a linear memory of 8 bytes; every byte the host can
  reach above it holds \<^verbatim>\<open>0xAA\<close>. A guest whose allocation callback answers an
  \<^verbatim>\<open>i64\<close>, and one whose callback answers nothing.
\<close>

definition cramped :: "(nat, nat) thread_state" where
  "cramped =
     idle\<lparr>console := True,
          wa := \<lparr>mem = (\<lambda>a. if a < 8 then 0 else 0xAA), mem_size = 8\<rparr>,
          database_status := [1, 2, 3]\<rparr>"

definition wide_alloc :: guest_module where
  "wide_alloc =
     \<lparr>func_table = (\<lambda>cb_alloc cb_alloc_data sz w. Inr (Some (i64_const 16), w)),
      export_initialize = [],
      export_run_query = []\<rparr>"

definition void_alloc :: guest_module where
  "void_alloc =
     \<lparr>func_table = (\<lambda>cb_alloc cb_alloc_data sz w. Inr (None, w)),
      export_initialize = [],
      export_run_query = []\<rparr>"

section \<open>Iterating over a query result (database.hpp)\<close>

text \<open>
  \<^verbatim>\<open>contract_row\<close>. The fields carry the prefix \<^verbatim>\<open>row_\<close> here; \<^verbatim>\<open>row_value\<close> is the
  datastream \<^verbatim>\<open>value\<close>, as the bytes that remain in it.
\<close>

record contract_row =
  row_block_index :: "32 word"
  row_present :: bool
  row_code :: name
  row_scope :: "64 word"
  row_table :: name
  row_primary_key :: "64 word"
  row_payer :: name
  row_value :: bytes

text \<open>
  The operators \<^verbatim>\<open>>>\<close> of \<^verbatim>\<open>datastream\<close> are not part of these sources; the two
  functions take them as arguments: \<^verbatim>\<open>read_size\<close> for \<^verbatim>\<open>ds >> size\<close>, \<^verbatim>\<open>read_row\<close>
  for \<^verbatim>\<open>ds >> row\<close>, \<^verbatim>\<open>unpack\<close> for \<^verbatim>\<open>row >> r\<close> and \<^verbatim>\<open>unpack_value\<close> for
  \<^verbatim>\<open>row.value >> p\<close>. Each returns what it read and the rest of the stream, or
  \<^verbatim>\<open>None\<close> when the read fails and the guest aborts. The callable \<^verbatim>\<open>f\<close> works on
  what it captured (\<^verbatim>\<open>'st\<close>) and may abort as well.

  The loop of \<^verbatim>\<open>for_each_query_result\<close>; the first argument counts the iterations
  that remain, \<^verbatim>\<open>size.value - i\<close>.
\<close>

fun for_each_query_result_loop ::
  "(bytes \<Rightarrow> (bytes \<times> bytes) option) \<Rightarrow> (bytes \<Rightarrow> ('r \<times> bytes) option)
    \<Rightarrow> ('r \<Rightarrow> 'st \<Rightarrow> (bool \<times> 'st) option) \<Rightarrow> nat \<Rightarrow> bytes \<Rightarrow> 'st
    \<Rightarrow> (bool \<times> 'st) option" where
  "for_each_query_result_loop read_row unpack f 0 ds st = Some (True, st)"
| "for_each_query_result_loop read_row unpack f (Suc n) ds st =
     (case read_row ds of
        None \<Rightarrow> None
      | Some (row, ds') \<Rightarrow>
          (case unpack row of
             None \<Rightarrow> None
           | Some (r, row') \<Rightarrow>
               (case f r st of
                  None \<Rightarrow> None
                | Some (ok, st') \<Rightarrow>
                    if \<not> ok then Some (False, st')
                    else for_each_query_result_loop read_row unpack f n ds' st')))"

definition for_each_query_result ::
  "(bytes \<Rightarrow> (32 word \<times> bytes) option) \<Rightarrow> (bytes \<Rightarrow> (bytes \<times> bytes) option)
    \<Rightarrow> (bytes \<Rightarrow> ('r \<times> bytes) option) \<Rightarrow> bytes
    \<Rightarrow> ('r \<Rightarrow> 'st \<Rightarrow> (bool \<times> 'st) option) \<Rightarrow> 'st \<Rightarrow> (bool \<times> 'st) option" where
  "for_each_query_result read_size read_row unpack bytes f st =
     (case read_size bytes of
        None \<Rightarrow> None
      | Some (sz, ds) \<Rightarrow> for_each_query_result_loop read_row unpack f (unat sz) ds st)"

text \<open>
  The lambda that \<^verbatim>\<open>for_each_contract_row\<close> hands to \<^verbatim>\<open>for_each_query_result\<close>. The
  data pointer given to \<^verbatim>\<open>f\<close> is \<^verbatim>\<open>None\<close> for \<^verbatim>\<open>nullptr\<close> and \<^verbatim>\<open>Some p\<close> for \<^verbatim>\<open>&p\<close>;
  \<^verbatim>\<open>row.value.remaining()\<close> is true when bytes remain.
\<close>

definition for_each_contract_row_lambda ::
  "(bytes \<Rightarrow> ('p \<times> bytes) option)
    \<Rightarrow> (contract_row \<Rightarrow> 'p option \<Rightarrow> 'st \<Rightarrow> (bool \<times> 'st) option)
    \<Rightarrow> contract_row \<Rightarrow> 'st \<Rightarrow> (bool \<times> 'st) option" where
  "for_each_contract_row_lambda unpack_value f row st =
     (if row_present row \<and> row_value row \<noteq> [] then
        (case unpack_value (row_value row) of
           None \<Rightarrow> None
         | Some (p, rest) \<Rightarrow>
             (case f (row\<lparr>row_value := rest\<rparr>) (Some p) st of
                None \<Rightarrow> None
              | Some (ok, st') \<Rightarrow> if \<not> ok then Some (False, st') else Some (True, st')))
      else
        (case f row None st of
           None \<Rightarrow> None
         | Some (ok, st') \<Rightarrow> if \<not> ok then Some (False, st') else Some (True, st')))"

definition for_each_contract_row ::
  "(bytes \<Rightarrow> (32 word \<times> bytes) option) \<Rightarrow> (bytes \<Rightarrow> (bytes \<times> bytes) option)
    \<Rightarrow> (bytes \<Rightarrow> (contract_row \<times> bytes) option) \<Rightarrow> (bytes \<Rightarrow> ('p \<times> bytes) option)
    \<Rightarrow> bytes \<Rightarrow> (contract_row \<Rightarrow> 'p option \<Rightarrow> 'st \<Rightarrow> (bool \<times> 'st) option) \<Rightarrow> 'st
    \<Rightarrow> (bool \<times> 'st) option" where
  "for_each_contract_row read_size read_row unpack unpack_value bytes f st =
     for_each_query_result read_size read_row unpack bytes
       (for_each_contract_row_lambda unpack_value f) st"

text \<open>
  For comparison, in the words of the documentation: the first \<^verbatim>\<open>n\<close> rows of a
  result, decoded; and a callable applied to rows in order until it returns false.
\<close>

fun decode_rows ::
  "(bytes \<Rightarrow> (bytes \<times> bytes) option) \<Rightarrow> (bytes \<Rightarrow> ('r \<times> bytes) option) \<Rightarrow> nat \<Rightarrow> bytes
    \<Rightarrow> 'r list option" where
  "decode_rows read_row unpack 0 ds = Some []"
| "decode_rows read_row unpack (Suc n) ds =
     (case read_row ds of
        None \<Rightarrow> None
      | Some (row, ds') \<Rightarrow>
          (case unpack row of
             None \<Rightarrow> None
           | Some (r, row') \<Rightarrow>
               (case decode_rows read_row unpack n ds' of
                  None \<Rightarrow> None
                | Some rs \<Rightarrow> Some (r # rs))))"

fun until_false :: "('r \<Rightarrow> 'st \<Rightarrow> (bool \<times> 'st) option) \<Rightarrow> 'r list \<Rightarrow> 'st \<Rightarrow> (bool \<times> 'st) option" where
  "until_false f [] st = Some (True, st)"
| "until_false f (r # rs) st =
     (case f r st of
        None \<Rightarrow> None
      | Some (ok, st') \<Rightarrow> if ok then until_false f rs st' else Some (False, st'))"

text \<open>
  A query result to try them on. Readers for the wire format of the host; a row is a
  byte for the flag \<^verbatim>\<open>present\<close> and then the value, whose data is one byte. The
  callable records the data it is given and objects to the byte 0. The result
  announces five rows and holds four.
\<close>

definition wire_size :: "bytes \<Rightarrow> (32 word \<times> bytes) option" where
  "wire_size bin = (case read_varuint32 bin of Inl e \<Rightarrow> None | Inr r \<Rightarrow> Some r)"

definition wire_row :: "bytes \<Rightarrow> (bytes \<times> bytes) option" where
  "wire_row bin = (case read_input_buffer bin of Inl e \<Rightarrow> None | Inr r \<Rightarrow> Some r)"

definition flagged :: "bool \<Rightarrow> bytes \<Rightarrow> contract_row" where
  "flagged p v =
     \<lparr>row_block_index = 0, row_present = p, row_code = \<lparr>name_value = 0\<rparr>, row_scope = 0,
      row_table = \<lparr>name_value = 0\<rparr>, row_primary_key = 0, row_payer = \<lparr>name_value = 0\<rparr>,
      row_value = v\<rparr>"

fun flagged_row :: "bytes \<Rightarrow> (contract_row \<times> bytes) option" where
  "flagged_row [] = None"
| "flagged_row (p # v) = Some (flagged (p \<noteq> 0) v, [])"

fun one_byte :: "bytes \<Rightarrow> (byte \<times> bytes) option" where
  "one_byte [] = None"
| "one_byte (b # rest) = Some (b, rest)"

definition recorder ::
  "contract_row \<Rightarrow> byte option \<Rightarrow> byte option list \<Rightarrow> (bool \<times> byte option list) option" where
  "recorder row p seen = Some (p \<noteq> Some 0, seen @ [p])"

definition five_rows :: bytes where
  "five_rows = [5, 2, 1, 5, 1, 1, 2, 0, 9, 2, 1, 0]"

section \<open>Properties of the key successor\<close>

lemma word_succ_zero: "((x::'a::len word) + 1 = 0) = (x = - 1)"
  by (simp add: eq_neg_iff_add_eq_0)

lemma word_succ_less: "(x::'a::len word) \<noteq> - 1 \<Longrightarrow> unat x < unat (x + 1)"
  using unatSuc [of x] by (simp add: add.commute [of 1 x] word_succ_zero)

lemma increment_key_eq: "increment_key k = (k = - 1, k + 1)"
  by (simp add: increment_key_def Let_def word_succ_zero)

lemma increment_key_name_eq:
  "increment_key_name n = (name_value n = - 1, \<lparr>name_value = name_value n + 1\<rparr>)"
  by (cases n) (simp add: increment_key_name_def increment_key_eq)

lemma increment_key_checksum256_eq:
  "increment_key_checksum256 c =
     (data1 c = - 1 \<and> data0 c = - 1,
      \<lparr>data0 = (if data1 c = - 1 then data0 c + 1 else data0 c), data1 = data1 c + 1\<rparr>)"
  by (cases c) (simp add: increment_key_checksum256_def increment_key_eq)

lemma checksum256_flag: "fst (increment_key_checksum256 c) = (c = max_checksum256)"
  by (cases c) (auto simp add: increment_key_checksum256_eq max_checksum256_def)

lemma checksum256_less_succ:
  "c \<noteq> max_checksum256 \<Longrightarrow> checksum256_less c (snd (increment_key_checksum256 c))"
  by (cases c)
    (auto simp add: increment_key_checksum256_eq max_checksum256_def checksum256_less_def
      checksum256_fields_def word_succ_less)

lemma increment_key_at_e_nra_eq:
  "increment_key_at_e_nra k =
    (let c6 = (action_index k = - 1);
         c5 = (c6 \<and> transaction_id k = max_checksum256);
         c4 = (c5 \<and> block_index k = - 1);
         c3 = (c4 \<and> name_value (account k) = - 1);
         c2 = (c3 \<and> name_value (receipt_receiver k) = - 1) in
     (c2 \<and> name_value (key_name k) = - 1,
      \<lparr>key_name = (if c2 then snd (increment_key_name (key_name k)) else key_name k),
       receipt_receiver =
         (if c3 then snd (increment_key_name (receipt_receiver k)) else receipt_receiver k),
       account = (if c4 then snd (increment_key_name (account k)) else account k),
       block_index = (if c5 then snd (increment_key (block_index k)) else block_index k),
       transaction_id =
         (if c6 then snd (increment_key_checksum256 (transaction_id k)) else transaction_id k),
       action_index = snd (increment_key (action_index k))\<rparr>))"
proof (cases k)
  case (fields n r a b t i)
  obtain d0 d1 where t: "t = \<lparr>data0 = d0, data1 = d1\<rparr>"
    by (cases t) simp
  show ?thesis
    unfolding fields t
    by (auto simp add: increment_key_at_e_nra_def increment_key_eq increment_key_name_eq
        increment_key_checksum256_eq max_checksum256_def Let_def)
qed

lemma key_flag: "fst (increment_key_at_e_nra k) = (k = max_key)"
proof (cases k)
  case (fields n r a b t i)
  show ?thesis
    unfolding fields
    by (cases n; cases r; cases a)
      (auto simp add: increment_key_at_e_nra_eq Let_def max_key_def)
qed

lemma key_less_succ: "k \<noteq> max_key \<Longrightarrow> key_less k (snd (increment_key_at_e_nra k))"
proof (cases k)
  case (fields n r a b t i)
  assume "k \<noteq> max_key"
  then show ?thesis
    unfolding fields
    by (cases n; cases r; cases a; cases t)
      (auto simp add: increment_key_at_e_nra_eq increment_key_checksum256_eq
        increment_key_name_eq increment_key_eq Let_def
        max_key_def max_checksum256_def key_less_def key_fields_def checksum256_fields_def
        word_succ_less)
qed

text \<open>
  Claim C5. For every key type with an \<^verbatim>\<open>increment_key\<close> overload: the successor
  increments the last field and carries into the field before it exactly when that
  field wrapped to zero; the flag returned is true exactly for the greatest key, in
  which case the first field wrapped as well; and every key but the greatest is
  strictly below its successor in the lexicographic order of the declared fields.
  Scalars and names have one field; a digest has its two words; the \<^verbatim>\<open>at.e.nra\<close>
  key has the six fields name, receipt_receiver, account, block_index,
  transaction_id, action_index.
\<close>

theorem increment_key_successor:
  fixes w :: "'a::len word" and n :: name and c :: checksum256 and k :: key
  defines "w' \<equiv> snd (increment_key w)"
      and "n' \<equiv> snd (increment_key_name n)"
      and "c' \<equiv> snd (increment_key_checksum256 c)"
      and "k' \<equiv> snd (increment_key_at_e_nra k)"
  shows
    "(w' = w + 1 \<and> fst (increment_key w) = (w' = 0) \<and> (w \<noteq> - 1 \<longrightarrow> unat w < unat w'))
   \<and> (name_value n' = name_value n + 1
       \<and> fst (increment_key_name n) = (name_value n' = 0)
       \<and> (name_value n \<noteq> - 1 \<longrightarrow> unat (name_value n) < unat (name_value n')))
   \<and> (data1 c' = data1 c + 1
       \<and> data0 c' = (if data1 c' = 0 then data0 c + 1 else data0 c)
       \<and> fst (increment_key_checksum256 c) = (data1 c' = 0 \<and> data0 c' = 0)
       \<and> fst (increment_key_checksum256 c) = (c = max_checksum256)
       \<and> (c \<noteq> max_checksum256 \<longrightarrow> checksum256_less c c'))
   \<and> (action_index k' = action_index k + 1
       \<and> transaction_id k' =
            (if action_index k' = 0 then snd (increment_key_checksum256 (transaction_id k))
             else transaction_id k)
       \<and> block_index k' =
            (if action_index k' = 0 \<and> fst (increment_key_checksum256 (transaction_id k))
             then block_index k + 1 else block_index k)
       \<and> account k' =
            (if action_index k' = 0 \<and> fst (increment_key_checksum256 (transaction_id k))
                \<and> block_index k' = 0
             then snd (increment_key_name (account k)) else account k)
       \<and> receipt_receiver k' =
            (if action_index k' = 0 \<and> fst (increment_key_checksum256 (transaction_id k))
                \<and> block_index k' = 0 \<and> name_value (account k') = 0
             then snd (increment_key_name (receipt_receiver k)) else receipt_receiver k)
       \<and> key_name k' =
            (if action_index k' = 0 \<and> fst (increment_key_checksum256 (transaction_id k))
                \<and> block_index k' = 0 \<and> name_value (account k') = 0
                \<and> name_value (receipt_receiver k') = 0
             then snd (increment_key_name (key_name k)) else key_name k)
       \<and> (fst (increment_key_at_e_nra k) \<longrightarrow>
            name_value (key_name k) = - 1 \<and> name_value (key_name k') = 0)
       \<and> fst (increment_key_at_e_nra k) = (k = max_key)
       \<and> (k \<noteq> max_key \<longrightarrow> key_less k k'))"
proof -
  have scalar: "w' = w + 1 \<and> fst (increment_key w) = (w' = 0)
      \<and> (w \<noteq> - 1 \<longrightarrow> unat w < unat w')"
    by (simp add: w'_def increment_key_eq word_succ_zero word_succ_less)
  have nm: "name_value n' = name_value n + 1
      \<and> fst (increment_key_name n) = (name_value n' = 0)
      \<and> (name_value n \<noteq> - 1 \<longrightarrow> unat (name_value n) < unat (name_value n'))"
    by (simp add: n'_def increment_key_name_eq word_succ_zero word_succ_less)
  have ck: "data1 c' = data1 c + 1
      \<and> data0 c' = (if data1 c' = 0 then data0 c + 1 else data0 c)
      \<and> fst (increment_key_checksum256 c) = (data1 c' = 0 \<and> data0 c' = 0)
      \<and> fst (increment_key_checksum256 c) = (c = max_checksum256)
      \<and> (c \<noteq> max_checksum256 \<longrightarrow> checksum256_less c c')"
    using checksum256_less_succ [of c] checksum256_flag [of c]
    by (auto simp add: c'_def increment_key_checksum256_eq word_succ_zero)
  have k1: "action_index k' = action_index k + 1"
    by (simp add: k'_def increment_key_at_e_nra_eq Let_def increment_key_eq)
  have z: "(action_index k' = 0) = (action_index k = - 1)"
    by (simp add: k1 word_succ_zero)
  have k2: "transaction_id k' =
      (if action_index k' = 0 then snd (increment_key_checksum256 (transaction_id k))
       else transaction_id k)"
    unfolding z by (simp add: k'_def increment_key_at_e_nra_eq Let_def)
  have k3: "block_index k' =
      (if action_index k' = 0 \<and> fst (increment_key_checksum256 (transaction_id k))
       then block_index k + 1 else block_index k)"
    unfolding z checksum256_flag
    by (simp add: k'_def increment_key_at_e_nra_eq Let_def increment_key_eq)
  have z3: "(action_index k' = 0 \<and> fst (increment_key_checksum256 (transaction_id k))
        \<and> block_index k' = 0)
      = (action_index k = - 1 \<and> transaction_id k = max_checksum256 \<and> block_index k = - 1)"
    unfolding k3 z checksum256_flag by (auto simp add: word_succ_zero)
  have k4: "account k' =
      (if action_index k' = 0 \<and> fst (increment_key_checksum256 (transaction_id k))
          \<and> block_index k' = 0
       then snd (increment_key_name (account k)) else account k)"
    unfolding z3 by (simp add: k'_def increment_key_at_e_nra_eq Let_def)
  have z4: "(action_index k' = 0 \<and> fst (increment_key_checksum256 (transaction_id k))
        \<and> block_index k' = 0 \<and> name_value (account k') = 0)
      = (action_index k = - 1 \<and> transaction_id k = max_checksum256 \<and> block_index k = - 1
         \<and> name_value (account k) = - 1)"
    using z3 k4 by (auto simp add: increment_key_name_eq word_succ_zero)
  have k5: "receipt_receiver k' =
      (if action_index k' = 0 \<and> fst (increment_key_checksum256 (transaction_id k))
          \<and> block_index k' = 0 \<and> name_value (account k') = 0
       then snd (increment_key_name (receipt_receiver k)) else receipt_receiver k)"
    unfolding z4 by (simp add: k'_def increment_key_at_e_nra_eq Let_def)
  have z5: "(action_index k' = 0 \<and> fst (increment_key_checksum256 (transaction_id k))
        \<and> block_index k' = 0 \<and> name_value (account k') = 0
        \<and> name_value (receipt_receiver k') = 0)
      = (action_index k = - 1 \<and> transaction_id k = max_checksum256 \<and> block_index k = - 1
         \<and> name_value (account k) = - 1 \<and> name_value (receipt_receiver k) = - 1)"
    using z4 k5 by (auto simp add: increment_key_name_eq word_succ_zero)
  have k6: "key_name k' =
      (if action_index k' = 0 \<and> fst (increment_key_checksum256 (transaction_id k))
          \<and> block_index k' = 0 \<and> name_value (account k') = 0
          \<and> name_value (receipt_receiver k') = 0
       then snd (increment_key_name (key_name k)) else key_name k)"
    unfolding z5 by (simp add: k'_def increment_key_at_e_nra_eq Let_def)
  have k7: "fst (increment_key_at_e_nra k) \<longrightarrow>
      name_value (key_name k) = - 1 \<and> name_value (key_name k') = 0"
    by (simp add: k'_def increment_key_at_e_nra_eq Let_def increment_key_name_eq)
  have k8: "fst (increment_key_at_e_nra k) = (k = max_key)"
    by (rule key_flag)
  have k9: "k \<noteq> max_key \<longrightarrow> key_less k k'"
    by (simp add: k'_def key_less_succ)
  from scalar nm ck k1 k2 k3 k4 k5 k6 k7 k8 k9 show ?thesis
    by blast
qed

theorem increment_key_successor_witness:
  "(7 :: 8 word) \<noteq> - 1 \<and> unat (7 :: 8 word) < unat (snd (increment_key (7 :: 8 word)))
   \<and> name_value \<lparr>name_value = 5\<rparr> \<noteq> - 1
   \<and> unat (name_value \<lparr>name_value = 5\<rparr>)
       < unat (name_value (snd (increment_key_name \<lparr>name_value = 5\<rparr>)))
   \<and> \<lparr>data0 = 3, data1 = - 1\<rparr> \<noteq> max_checksum256
   \<and> checksum256_less \<lparr>data0 = 3, data1 = - 1\<rparr>
        (snd (increment_key_checksum256 \<lparr>data0 = 3, data1 = - 1\<rparr>))
   \<and> example_key \<noteq> max_key
   \<and> key_less example_key (snd (increment_key_at_e_nra example_key))
   \<and> fst (increment_key_at_e_nra max_key)
   \<and> name_value (key_name max_key) = - 1
   \<and> name_value (key_name (snd (increment_key_at_e_nra max_key))) = 0"
proof -
  note t = increment_key_successor [of "7 :: 8 word" "\<lparr>name_value = 5\<rparr>"
      "\<lparr>data0 = 3, data1 = - 1\<rparr>" example_key]
  note m = increment_key_successor [of "7 :: 8 word" "\<lparr>name_value = 5\<rparr>"
      "\<lparr>data0 = 3, data1 = - 1\<rparr>" max_key]
  have h1: "(7 :: 8 word) \<noteq> - 1"
    by simp
  have h2: "name_value \<lparr>name_value = 5\<rparr> \<noteq> - 1"
    by simp
  have h3: "\<lparr>data0 = 3, data1 = - 1\<rparr> \<noteq> max_checksum256"
    by (simp add: max_checksum256_def)
  have h4: "example_key \<noteq> max_key"
    by (simp add: example_key_def max_key_def)
  have h5: "fst (increment_key_at_e_nra max_key)"
    using m by blast
  from t m h1 h2 h3 h4 h5 show ?thesis
    by blast
qed

section \<open>Host calls and guest runs\<close>

declare varuint32_bytes.simps [simp del]

lemma snapshots_append: "snapshots (xs @ ys) = snapshots xs @ snapshots ys"
  by (induction xs rule: snapshots.induct) simp_all

lemma runs_append: "runs (xs @ ys) = runs xs @ runs ys"
  by (induction xs rule: runs.induct) simp_all

lemma fork_checks_append: "fork_checks (xs @ ys) = fork_checks xs @ fork_checks ys"
  by (induction xs rule: fork_checks.induct) simp_all

lemma releases_append: "releases (xs @ ys) = releases xs + releases ys"
  by (induction xs rule: releases.induct) simp_all

lemma buffer_after_append:
  "buffer_after buf (xs @ ys) = buffer_after (buffer_after buf xs) ys"
  by (induction buf xs rule: buffer_after.induct) simp_all

lemma buffer_after_outputs: "buffer_after buf (map ev_set_output outs) = last (buf # outs)"
  by (induction outs arbitrary: buf) simp_all

lemma outputs_quiet:
  "snapshots (map ev_set_output outs) = []" "runs (map ev_set_output outs) = []"
  "fork_checks (map ev_set_output outs) = []" "releases (map ev_set_output outs) = 0"
  by (induction outs) simp_all

lemma last_last: "last (last (b # xs) # ys) = last (b # xs @ ys)"
  by (simp add: last_append)

lemmas trace_append =
  snapshots_append runs_append fork_checks_append releases_append buffer_after_append

lemma guest_effect_refl: "guest_effect ts ts []"
  by (simp add: guest_effect_def)

lemma guest_effect_trans:
  "guest_effect a b xs \<Longrightarrow> guest_effect b c ys \<Longrightarrow> guest_effect a c (xs @ ys)"
  by (simp add: guest_effect_def last_append)

lemma guest_effect_wa:
  "guest_effect (ts\<lparr>wa := w\<rparr>) ts' outs = guest_effect ts ts' outs"
  by (simp add: guest_effect_def)

lemma alloc_effect:
  "alloc g cb_alloc_data cb_alloc sz ts = (r, ts') \<Longrightarrow> guest_effect ts ts' []"
  by (auto simp add: alloc_def guest_effect_def Let_def check_bounds_def
      split: sum.splits prod.splits option.splits if_splits)

lemma abort_effect: "abort ts = (r, ts') \<Longrightarrow> guest_effect ts ts' []"
  by (auto simp add: abort_def guest_effect_def)

lemma eosio_assert_message_effect:
  "eosio_assert_message test msg msg_len ts = (r, ts') \<Longrightarrow> guest_effect ts ts' []"
  by (auto simp add: eosio_assert_message_def guest_effect_def split: if_splits)

lemma get_database_status_effect:
  "get_database_status g cb_alloc_data cb_alloc ts = (r, ts') \<Longrightarrow> guest_effect ts ts' []"
  by (auto simp add: get_database_status_def guest_effect_def
      dest!: alloc_effect split: sum.splits prod.splits)

lemma get_input_data_effect:
  "get_input_data g cb_alloc_data cb_alloc ts = (r, ts') \<Longrightarrow> guest_effect ts ts' []"
  by (auto simp add: get_input_data_def guest_effect_def
      dest!: alloc_effect split: sum.splits prod.splits)

lemma set_output_data_effect:
  "set_output_data begin end ts = (r, ts') \<Longrightarrow>
     guest_effect ts ts' [] \<or> (\<exists>bs. guest_effect ts ts' [bs])"
  by (auto simp add: set_output_data_def guest_effect_def Let_def split: sum.splits)

lemma query_database_effect:
  "query_database iface g req_begin req_end cb_alloc_data cb_alloc ts = (r, ts') \<Longrightarrow>
     guest_effect ts ts' []"
  by (auto simp add: query_database_def guest_effect_def
      dest!: alloc_effect split: sum.splits prod.splits option.splits)

lemma print_range_effect: "print_range begin end ts = (r, ts') \<Longrightarrow> guest_effect ts ts' []"
  by (auto simp add: print_range_def guest_effect_def split: sum.splits if_splits)

lemma host_function_effect:
  "host_function iface g c ts = (r, ts') \<Longrightarrow> \<exists>outs. guest_effect ts ts' outs"
proof (cases c)
  case (call_set_output_data b e)
  then show "host_function iface g c ts = (r, ts') \<Longrightarrow> ?thesis"
    using set_output_data_effect [of "unat b" "unat e" ts r ts'] by auto
qed (auto dest: abort_effect eosio_assert_message_effect get_database_status_effect
    get_input_data_effect query_database_effect print_range_effect)

lemma run_step_effect:
  "run_step iface g st ts = (r, ts') \<Longrightarrow> \<exists>outs. guest_effect ts ts' outs"
proof (cases st)
  case (host_step prepare c)
  assume "run_step iface g st ts = (r, ts')"
  with host_step have "host_function iface g c (ts\<lparr>wa := prepare (wa ts)\<rparr>) = (r, ts')"
    by simp
  then show ?thesis
    using host_function_effect guest_effect_wa by blast
next
  case trap_step
  assume "run_step iface g st ts = (r, ts')"
  with trap_step show ?thesis
    using guest_effect_refl by auto
qed

lemma run_export_effect:
  "run_export iface g steps ts = (r, ts') \<Longrightarrow> \<exists>outs. guest_effect ts ts' outs"
proof (induction steps arbitrary: ts)
  case Nil
  then show ?case
    using guest_effect_refl by auto
next
  case (Cons st steps)
  obtain r1 ts1 where s1: "run_step iface g st ts = (r1, ts1)"
    by (cases "run_step iface g st ts")
  then obtain o1 where e1: "guest_effect ts ts1 o1"
    using run_step_effect by blast
  show ?case
  proof (cases r1)
    case (Inl e)
    with Cons.prems s1 have "ts' = ts1"
      by simp
    with e1 show ?thesis
      by blast
  next
    case (Inr u)
    with Cons.prems s1 have "run_export iface g steps ts1 = (r, ts')"
      by simp
    then obtain o2 where "guest_effect ts1 ts' o2"
      using Cons.IH by blast
    with e1 show ?thesis
      using guest_effect_trans by blast
  qed
qed

lemma run_query_effect:
  assumes "run_query wasm_dir iface ts short_name = (r, ts')"
  shows "\<exists>outs. trace ts' = trace ts
        @ ev_run_query (query_session ts) short_name (request ts) # map ev_set_output outs
      \<and> reply ts' = last (reply ts # outs)
      \<and> query_session ts' = query_session ts \<and> fill_status ts' = fill_status ts
      \<and> request ts' = request ts"
proof -
  define ts0 where
    "ts0 = ts\<lparr>trace := trace ts @ [ev_run_query (query_session ts) short_name (request ts)]\<rparr>"
  have "\<exists>outs. guest_effect ts0 ts' outs"
  proof (cases "wasm_dir short_name ts")
    case (Inl e)
    with assms have "ts' = ts0"
      by (simp add: run_query_def ts0_def Let_def)
    then show ?thesis
      using guest_effect_refl by blast
  next
    case (Inr g)
    obtain r1 ts1 where i: "run_export iface g (export_initialize g) ts0 = (r1, ts1)"
      by (cases "run_export iface g (export_initialize g) ts0")
    then obtain o1 where e1: "guest_effect ts0 ts1 o1"
      using run_export_effect by blast
    show ?thesis
    proof (cases r1)
      case (Inl e)
      with assms Inr i have "ts' = ts1"
        by (simp add: run_query_def ts0_def [symmetric] Let_def)
      with e1 show ?thesis
        by blast
    next
      case (Inr u)
      with assms \<open>wasm_dir short_name ts = Inr g\<close> i
      have "run_export iface g (export_run_query g) ts1 = (r, ts')"
        by (simp add: run_query_def ts0_def [symmetric] Let_def)
      then obtain o2 where "guest_effect ts1 ts' o2"
        using run_export_effect by blast
      with e1 show ?thesis
        using guest_effect_trans by blast
    qed
  qed
  then obtain outs where "guest_effect ts0 ts' outs"
    by blast
  then show ?thesis
    by (intro exI [of _ outs]) (simp add: guest_effect_def ts0_def)
qed

lemma did_fork_effect:
  assumes "did_fork iface ts = (Inr forked, ts')"
  shows "trace ts' = trace ts @ [ev_fork_check (query_session ts) forked]
      \<and> reply ts' = reply ts \<and> query_session ts' = query_session ts
      \<and> fill_status ts' = fill_status ts \<and> request ts' = request ts"
  using assms
  by (auto simp add: did_fork_def Let_def split: option.splits prod.splits)

lemma did_fork_error:
  assumes "did_fork iface ts = (Inl e, ts')"
  shows "ts' = ts"
  using assms
  by (auto simp add: did_fork_def Let_def split: option.splits prod.splits)


lemma did_fork_session:
  assumes "query_session ts = Some s"
  shows "\<exists>forked ts'. did_fork iface ts = (Inr forked, ts')"
  using assms by (simp add: did_fork_def Let_def split: prod.splits)
section \<open>The sub-request loop and the retry loop\<close>

lemma attempt_body_Nil: "attempt_body s [] = []"
  by (simp add: attempt_body_def)

lemma attempt_body_Cons: "attempt_body s (p # ps) = pass_events s p @ attempt_body s ps"
  by (simp add: attempt_body_def)

lemma attempt_body_append: "attempt_body s (ps @ qs) = attempt_body s ps @ attempt_body s qs"
  by (simp add: attempt_body_def)

lemma pass_events_quiet: "snapshots (pass_events s p) = []" "releases (pass_events s p) = 0"
  by (simp_all add: pass_events_def trace_append outputs_quiet split: option.split)

lemma attempt_body_quiet: "snapshots (attempt_body s ps) = []" "releases (attempt_body s ps) = 0"
  by (induction ps) (simp_all add: attempt_body_Nil attempt_body_Cons trace_append
      pass_events_quiet)

lemma pass_events_runs: "runs (pass_events s p) = [(s, fst (served p))]"
  by (simp add: pass_events_def trace_append outputs_quiet split: option.split)

lemma pass_events_checks:
  "fork_checks (pass_events s p) = (case ending p of None \<Rightarrow> [] | Some b \<Rightarrow> [(s, b)])"
  by (simp add: pass_events_def trace_append outputs_quiet split: option.split)

lemma pass_events_buffer: "buffer_after buf (pass_events s p) = last (buf # written p)"
  by (simp add: pass_events_def trace_append buffer_after_outputs split: option.split)

lemma attempt_body_buffer:
  "buffer_after buf (attempt_body s ps) = last (buf # concat (map written ps))"
proof (induction ps arbitrary: buf)
  case Nil
  then show ?case
    by (simp add: attempt_body_Nil)
next
  case (Cons p ps)
  have "buffer_after buf (attempt_body s (p # ps))
      = last (last (buf # written p) # concat (map written ps))"
    by (simp add: attempt_body_Cons trace_append pass_events_buffer Cons.IH)
  then show ?case
    unfolding last_last by simp
qed

lemma blobs_from_length: "length (blobs_from buf outss) = length outss"
  by (induction outss arbitrary: buf) simp_all

lemma blobs_from_last: "last (buf # blobs_from buf outss) = last (buf # concat outss)"
proof (induction outss arbitrary: buf)
  case Nil
  then show ?case
    by simp
next
  case (Cons outs outss)
  have "last (buf # blobs_from buf (outs # outss))
      = last (last (buf # outs) # blobs_from (last (buf # outs)) outss)"
    by simp
  also have "\<dots> = last (last (buf # outs) # concat outss)"
    by (rule Cons.IH)
  also have "\<dots> = last (buf # concat (outs # outss))"
    unfolding last_last by simp
  finally show ?case .
qed

lemma blobs_from_nth:
  "i < length outss \<Longrightarrow>
   blobs_from buf outss ! i =
     (if outss ! i \<noteq> [] then last (outss ! i)
      else if i = 0 then buf else blobs_from buf outss ! (i - 1))"
proof (induction outss arbitrary: buf i)
  case Nil
  then show ?case
    by simp
next
  case (Cons outs outss)
  show ?case
  proof (cases i)
    case 0
    then show ?thesis
      by simp
  next
    case (Suc j)
    with Cons.prems have j: "j < length outss"
      by simp
    show ?thesis
    proof (cases j)
      case 0
      with Suc j Cons.IH [OF j, of "last (buf # outs)"] show ?thesis
        by simp
    next
      case (Suc k)
      with \<open>i = Suc j\<close> j Cons.IH [OF j, of "last (buf # outs)"] show ?thesis
        by simp
    qed
  qed
qed

lemma blobs_from_written:
  "list_all (\<lambda>outs. outs \<noteq> []) outss \<Longrightarrow> blobs_from buf outss = map last outss"
  by (induction outss arbitrary: buf) simp_all

text \<open>One pass of the loop body.\<close>

lemma sub_requests_Suc:
  assumes "sub_requests wasm_dir iface (Suc n) request_bin result ts = (r, result', ts')"
  obtains
    (unread) e where "r = Inl e" "trace ts' = trace ts" "reply ts' = reply ts"
      "query_session ts' = query_session ts" "fill_status ts' = fill_status ts"
  | (raised) e req request_bin' outs where
      "decode_sub_request request_bin = Some (req, request_bin')" "r = Inl e"
      "trace ts' = trace ts
         @ pass_events (query_session ts) \<lparr>served = req, written = outs, ending = None\<rparr>"
      "reply ts' = last (reply ts # outs)"
      "query_session ts' = query_session ts" "fill_status ts' = fill_status ts"
  | (forked) req request_bin' outs where
      "decode_sub_request request_bin = Some (req, request_bin')" "r = Inr False"
      "trace ts' = trace ts
         @ pass_events (query_session ts) \<lparr>served = req, written = outs, ending = Some True\<rparr>"
      "reply ts' = last (reply ts # outs)"
      "query_session ts' = query_session ts" "fill_status ts' = fill_status ts"
  | (again) req request_bin' outs ts2 where
      "decode_sub_request request_bin = Some (req, request_bin')"
      "sub_requests wasm_dir iface n request_bin' (result @ reply_frame (reply ts2)) ts2
         = (r, result', ts')"
      "trace ts2 = trace ts
         @ pass_events (query_session ts) \<lparr>served = req, written = outs, ending = Some False\<rparr>"
      "reply ts2 = last (reply ts # outs)"
      "query_session ts2 = query_session ts" "fill_status ts2 = fill_status ts"
proof (cases "read_input_buffer request_bin")
  case (Inl e)
  with assms show ?thesis
    by (intro unread [of e]) auto
next
  case (Inr p)
  obtain req request_bin' where p: "p = (req, request_bin')"
    by (cases p)
  show ?thesis
  proof (cases "read_name req")
    case (Inl e)
    with assms Inr p show ?thesis
      by (intro unread [of e]) auto
  next
    case ns: (Inr q)
    obtain ns_name req1 where q: "q = (ns_name, req1)"
      by (cases q)
    show ?thesis
    proof (cases "ns_name \<noteq> local_n")
      case True
      with assms Inr p ns q show ?thesis
        by (intro unread [of "unknown_namespace ns_name"]) auto
    next
      case False
      show ?thesis
      proof (cases "read_name req1")
        case (Inl e)
        with assms Inr p ns q False show ?thesis
          by (intro unread [of e]) auto
      next
        case sn: (Inr q2)
        obtain short_name req2 where q2: "q2 = (short_name, req2)"
          by (cases q2)
        have dec: "decode_sub_request request_bin = Some ((short_name, req2), request_bin')"
          using Inr p ns q False sn q2 by (simp add: decode_sub_request_def)
        obtain r1 ts1 where
          run: "run_query wasm_dir iface (ts\<lparr>request := req2\<rparr>) short_name = (r1, ts1)"
          by (cases "run_query wasm_dir iface (ts\<lparr>request := req2\<rparr>) short_name")
        from run_query_effect [OF run] obtain outs where
          t1: "trace ts1 = trace ts
              @ ev_run_query (query_session ts) short_name req2 # map ev_set_output outs"
          and b1: "reply ts1 = last (reply ts # outs)"
          and s1: "query_session ts1 = query_session ts" "fill_status ts1 = fill_status ts"
          by auto
        have body: "sub_requests wasm_dir iface (Suc n) request_bin result ts =
            (case r1 of
               Inl e \<Rightarrow> (Inl e, result, ts1)
             | Inr u \<Rightarrow>
                 (case did_fork iface ts1 of
                    (Inl e, ts2) \<Rightarrow> (Inl e, result, ts2)
                  | (Inr True, ts2) \<Rightarrow> (Inr False, result, ts2)
                  | (Inr False, ts2) \<Rightarrow>
                      sub_requests wasm_dir iface n request_bin'
                        (push_varuint32 result (of_nat (length (reply ts2))) @ reply ts2)
                        ts2))"
          using Inr p ns q False sn q2 run
          by (simp split: sum.split)
        show ?thesis
        proof (cases r1)
          case (Inl e)
          with assms body have "r = Inl e" "ts' = ts1"
            by simp_all
          with dec t1 b1 s1 show ?thesis
            by (intro raised [of "(short_name, req2)" request_bin' e outs])
              (simp_all add: pass_events_def)
        next
          case ok: (Inr u)
          obtain r2 ts2 where fork: "did_fork iface ts1 = (r2, ts2)"
            by (cases "did_fork iface ts1")
          show ?thesis
          proof (cases r2)
            case (Inl e)
            with fork have "ts2 = ts1"
              using did_fork_error by blast
            with assms body ok fork Inl have "r = Inl e" "ts' = ts1"
              by simp_all
            with dec t1 b1 s1 show ?thesis
              by (intro raised [of "(short_name, req2)" request_bin' e outs])
                (simp_all add: pass_events_def)
          next
            case (Inr forked)
            from did_fork_effect [OF fork [unfolded Inr]]
            have t2: "trace ts2 = trace ts1 @ [ev_fork_check (query_session ts1) forked]"
              and s2: "reply ts2 = reply ts1" "query_session ts2 = query_session ts1"
                "fill_status ts2 = fill_status ts1"
              by auto
            show ?thesis
            proof (cases forked)
              case True
              with assms body ok fork Inr have "r = Inr False" "ts' = ts2"
                by simp_all
              with dec t1 t2 b1 s1 s2 True show ?thesis
                by (intro forked [of "(short_name, req2)" request_bin' outs])
                  (simp_all add: pass_events_def)
            next
              case no: False
              with assms body ok fork Inr
              have "sub_requests wasm_dir iface n request_bin'
                  (result @ reply_frame (reply ts2)) ts2 = (r, result', ts')"
                by (simp add: push_varuint32_def reply_frame_def)
              with dec t1 t2 b1 s1 s2 no show ?thesis
                by (intro again [of "(short_name, req2)" request_bin' ts2 outs])
                  (simp_all add: pass_events_def)
            qed
          qed
        qed
      qed
    qed
  qed
qed

text \<open>The whole loop: the passes it makes and what it stages.\<close>

lemma sub_requests_passes:
  "sub_requests wasm_dir iface n request_bin result ts = (r, result', ts') \<Longrightarrow>
   \<exists>ps. trace ts' = trace ts @ attempt_body (query_session ts) ps
     \<and> length ps \<le> n
     \<and> decode_sub_requests (length ps) request_bin = Some (map served ps)
     \<and> list_all (\<lambda>p. ending p = Some False) (butlast ps)
     \<and> reply ts' = last (reply ts # concat (map written ps))
     \<and> query_session ts' = query_session ts \<and> fill_status ts' = fill_status ts
     \<and> forked_passes ps = (r = Inr False)
     \<and> (r = Inr True \<longrightarrow>
          length ps = n \<and> list_all (\<lambda>p. ending p = Some False) ps
          \<and> result' = result
               @ concat (map reply_frame (blobs_from (reply ts) (map written ps))))"
proof (induction n arbitrary: request_bin result ts)
  case 0
  then have "r = Inr True" "result' = result" "ts' = ts"
    by auto
  then show ?case
    by (intro exI [of _ "[]"]) (simp add: attempt_body_Nil forked_passes_def)
next
  case (Suc n)
  let ?s = "query_session ts"
  from Suc.prems show ?case
  proof (cases rule: sub_requests_Suc)
    case (unread e)
    then show ?thesis
      by (intro exI [of _ "[]"]) (simp add: attempt_body_Nil forked_passes_def)
  next
    case (raised e req request_bin' outs)
    let ?p = "\<lparr>served = req, written = outs, ending = None\<rparr>"
    from raised show ?thesis
      by (intro exI [of _ "[?p]"]) (simp add: attempt_body_Cons attempt_body_Nil
          forked_passes_def)
  next
    case (forked req request_bin' outs)
    let ?p = "\<lparr>served = req, written = outs, ending = Some True\<rparr>"
    from forked show ?thesis
      by (intro exI [of _ "[?p]"]) (simp add: attempt_body_Cons attempt_body_Nil
          forked_passes_def)
  next
    case (again req request_bin' outs ts2)
    let ?p = "\<lparr>served = req, written = outs, ending = Some False\<rparr>"
    from Suc.IH [OF again(2)] again(4,5,6) obtain ps where
      t: "trace ts' = trace ts2 @ attempt_body ?s ps"
      and l: "length ps \<le> n"
      and d: "decode_sub_requests (length ps) request_bin' = Some (map served ps)"
      and e: "list_all (\<lambda>p. ending p = Some False) (butlast ps)"
      and b: "reply ts' = last (last (reply ts # outs) # concat (map written ps))"
      and s: "query_session ts' = ?s" "fill_status ts' = fill_status ts"
      and f: "forked_passes ps = (r = Inr False)"
      and c: "r = Inr True \<longrightarrow>
          length ps = n \<and> list_all (\<lambda>p. ending p = Some False) ps
          \<and> result' = (result @ reply_frame (last (reply ts # outs)))
               @ concat (map reply_frame
                   (blobs_from (last (reply ts # outs)) (map written ps)))"
      by auto
    define whole where "whole = ?p # ps"
    have "trace ts' = trace ts @ attempt_body ?s whole"
      unfolding whole_def using t again(3) by (simp add: attempt_body_Cons)
    moreover have "length whole \<le> Suc n"
      unfolding whole_def using l by simp
    moreover have "decode_sub_requests (length whole) request_bin
        = Some (map served whole)"
      unfolding whole_def using d again(1) by simp
    moreover have "list_all (\<lambda>p. ending p = Some False) (butlast whole)"
      unfolding whole_def using e by simp
    moreover have "reply ts' = last (reply ts # concat (map written whole))"
      unfolding whole_def b last_last by simp
    moreover have "forked_passes whole = (r = Inr False)"
      unfolding whole_def using f by (auto simp add: forked_passes_def)
    moreover have "r = Inr True \<longrightarrow>
          length whole = Suc n \<and> list_all (\<lambda>p. ending p = Some False) whole
          \<and> result' = result
               @ concat (map reply_frame (blobs_from (reply ts) (map written whole)))"
      unfolding whole_def using c by simp
    ultimately show ?thesis
      using s by (intro exI [of _ whole]) blast
  qed
qed

lemma query_attempt_passes:
  assumes "query_attempt wasm_dir iface request_blob result ts = (r, result', ts')"
  shows "\<exists>ps. trace ts' = trace ts @ attempt_body (query_session ts) ps
     \<and> attempt_passes request_blob ps
     \<and> reply ts' = last (reply ts # concat (map written ps))
     \<and> query_session ts' = query_session ts \<and> fill_status ts' = fill_status ts
     \<and> forked_passes ps = (r = Inr False)
     \<and> (r = Inr True \<longrightarrow>
          committed_passes request_blob ps
          \<and> (\<exists>n rest. read_varuint32 request_blob = Inr (n, rest)
                \<and> result' = reply_encoding n (blobs_from (reply ts) (map written ps))))"
proof (cases "read_varuint32 request_blob")
  case (Inl e)
  with assms have "r = Inl e" "ts' = ts"
    by (simp_all add: query_attempt_def)
  with Inl show ?thesis
    by (intro exI [of _ "[]"])
      (simp add: attempt_body_Nil attempt_passes_def forked_passes_def)
next
  case (Inr p)
  obtain n rest where p: "p = (n, rest)"
    by (cases p)
  with assms Inr
  have "sub_requests wasm_dir iface (unat n) rest (varuint32_bytes n) ts = (r, result', ts')"
    by (simp add: query_attempt_def push_varuint32_def)
  from sub_requests_passes [OF this] obtain ps where
    e: "trace ts' = trace ts @ attempt_body (query_session ts) ps"
      "reply ts' = last (reply ts # concat (map written ps))"
      "query_session ts' = query_session ts" "fill_status ts' = fill_status ts"
      "forked_passes ps = (r = Inr False)"
    and a: "length ps \<le> unat n"
      "decode_sub_requests (length ps) rest = Some (map served ps)"
      "list_all (\<lambda>p. ending p = Some False) (butlast ps)"
    and c: "r = Inr True \<longrightarrow>
          length ps = unat n \<and> list_all (\<lambda>p. ending p = Some False) ps
          \<and> result' = varuint32_bytes n
               @ concat (map reply_frame (blobs_from (reply ts) (map written ps)))"
    by blast
  have "attempt_passes request_blob ps"
    using a Inr p by (simp add: attempt_passes_def)
  moreover from c Inr p have "r = Inr True \<longrightarrow>
          committed_passes request_blob ps
          \<and> (\<exists>n rest. read_varuint32 request_blob = Inr (n, rest)
                \<and> result' = reply_encoding n (blobs_from (reply ts) (map written ps)))"
    by (simp add: reply_encoding_def committed_passes_def)
  ultimately show ?thesis
    using e by (intro exI [of _ ps]) blast
qed

lemma query_attempt_discards:
  assumes "query_attempt wasm_dir iface request_blob result ts = (Inr b, result', ts')"
  shows "query_attempt wasm_dir iface request_blob result0 ts = (Inr b, result', ts')"
  using assms by (auto simp add: query_attempt_def split: sum.splits prod.splits)

text \<open>The one pass of an attempt of \<^verbatim>\<open>legacy_query\<close>.\<close>

lemma legacy_attempt_pass:
  assumes "legacy_attempt wasm_dir iface u ts = (r, u', ts')"
  shows "\<exists>outs e. trace ts' = trace ts
        @ pass_events (query_session ts) (legacy_pass (request ts) outs e)
     \<and> reply ts' = last (reply ts # outs)
     \<and> query_session ts' = query_session ts \<and> fill_status ts' = fill_status ts
     \<and> request ts' = request ts
     \<and> (e = Some True) = (r = Inr False) \<and> (e = Some False) = (r = Inr True)"
proof -
  obtain r1 ts1 where run: "run_query wasm_dir iface ts legacy_n = (r1, ts1)"
    by (cases "run_query wasm_dir iface ts legacy_n")
  from run_query_effect [OF run] obtain outs where
    t1: "trace ts1 = trace ts
        @ ev_run_query (query_session ts) legacy_n (request ts) # map ev_set_output outs"
    and b1: "reply ts1 = last (reply ts # outs)"
    and s1: "query_session ts1 = query_session ts" "fill_status ts1 = fill_status ts"
      "request ts1 = request ts"
    by auto
  show ?thesis
  proof (cases r1)
    case (Inl err)
    with assms run have "ts' = ts1" "r = Inl err"
      by (simp_all add: legacy_attempt_def)
    with t1 b1 s1 show ?thesis
      by (intro exI [of _ outs] exI [of _ None]) (simp add: pass_events_def legacy_pass_def)
  next
    case ok: (Inr v)
    obtain r2 ts2 where fork: "did_fork iface ts1 = (r2, ts2)"
      by (cases "did_fork iface ts1")
    show ?thesis
    proof (cases r2)
      case (Inl err)
      with fork have "ts2 = ts1"
        using did_fork_error by blast
      with assms run ok fork Inl have "ts' = ts1" "r = Inl err"
        by (simp_all add: legacy_attempt_def)
      with t1 b1 s1 show ?thesis
        by (intro exI [of _ outs] exI [of _ None])
          (simp add: pass_events_def legacy_pass_def)
    next
      case (Inr forked)
      from did_fork_effect [OF fork [unfolded Inr]]
      have t2: "trace ts2 = trace ts1 @ [ev_fork_check (query_session ts1) forked]"
        and s2: "reply ts2 = reply ts1" "query_session ts2 = query_session ts1"
          "fill_status ts2 = fill_status ts1" "request ts2 = request ts1"
        by auto
      from assms run ok fork Inr have "ts' = ts2" "r = Inr (\<not> forked)"
        by (simp_all add: legacy_attempt_def)
      with t1 t2 b1 s1 s2 show ?thesis
        by (intro exI [of _ outs] exI [of _ "Some forked"])
          (auto simp add: pass_events_def legacy_pass_def)
    qed
  qed
qed

text \<open>The head of an attempt and its end.\<close>

lemma open_snapshot_effect:
  "trace (open_snapshot iface ts)
     = trace ts @ [ev_open_snapshot (fst (create_query_session iface (db ts)))]
   \<and> query_session (open_snapshot iface ts) = Some (fst (create_query_session iface (db ts)))
   \<and> reply (open_snapshot iface ts) = reply ts
   \<and> request (open_snapshot iface ts) = request ts"
  by (simp add: open_snapshot_def Let_def split: prod.splits)

lemma fill_context_data_effect:
  "trace (fill_context_data ts) = trace ts
   \<and> query_session (fill_context_data ts) = query_session ts
   \<and> fill_status (fill_context_data ts) = fill_status ts
   \<and> reply (fill_context_data ts) = reply ts
   \<and> request (fill_context_data ts) = request ts"
  by (simp add: fill_context_data_def)

lemma scoped_exit_effect:
  "trace (scoped_exit ts) = trace ts @ [ev_release] \<and> reply (scoped_exit ts) = reply ts
   \<and> request (scoped_exit ts) = request ts"
  by (simp add: scoped_exit_def)

declare retry_loop.simps [simp del]

lemma retry_loop_cases:
  assumes "retry_loop iface f n c ts = (r, c', ts')"
  obtains
    (empty) "head (fill_status (open_snapshot iface ts)) = 0" "r = Inl empty_database"
      "c' = c" "ts' = scoped_exit (open_snapshot iface ts)"
  | (raised) e ts3 where "head (fill_status (open_snapshot iface ts)) \<noteq> 0"
      "f c (fill_context_data (open_snapshot iface ts)) = (Inl e, c', ts3)"
      "r = Inl e" "ts' = scoped_exit ts3"
  | (commit) ts3 where "head (fill_status (open_snapshot iface ts)) \<noteq> 0"
      "f c (fill_context_data (open_snapshot iface ts)) = (Inr True, c', ts3)"
      "r = Inr ()" "ts' = scoped_exit ts3"
  | (exhausted) ts3 where "head (fill_status (open_snapshot iface ts)) \<noteq> 0"
      "f c (fill_context_data (open_snapshot iface ts)) = (Inr False, c', ts3)"
      "4 \<le> n + 1" "r = Inl too_many_forks" "ts' = scoped_exit ts3"
  | (retry) c1 ts3 where "head (fill_status (open_snapshot iface ts)) \<noteq> 0"
      "f c (fill_context_data (open_snapshot iface ts)) = (Inr False, c1, ts3)"
      "n + 1 < 4" "retry_loop iface f (n + 1) c1 (scoped_exit ts3) = (r, c', ts')"
proof (cases "head (fill_status (open_snapshot iface ts)) = 0")
  case True
  with assms show ?thesis
    by (intro empty) (simp_all add: retry_loop.simps [of iface f n c ts] Let_def)
next
  case False
  obtain r1 c1 ts3 where
    f: "f c (fill_context_data (open_snapshot iface ts)) = (r1, c1, ts3)"
    by (cases "f c (fill_context_data (open_snapshot iface ts))")
  show ?thesis
  proof (cases r1)
    case (Inl e)
    with assms False f have "r = Inl e" "c' = c1" "ts' = scoped_exit ts3"
      by (simp_all add: retry_loop.simps [of iface f n c ts] Let_def)
    with False f Inl show ?thesis
      by (intro raised [of e ts3]) simp_all
  next
    case (Inr b)
    show ?thesis
    proof (cases b)
      case True
      with assms False f Inr have "r = Inr ()" "c' = c1" "ts' = scoped_exit ts3"
        by (simp_all add: retry_loop.simps [of iface f n c ts] Let_def)
      with False f Inr True show ?thesis
        by (intro commit [of ts3]) simp_all
    next
      case no: False
      show ?thesis
      proof (cases "4 \<le> n + 1")
        case True
        with assms \<open>head (fill_status (open_snapshot iface ts)) \<noteq> 0\<close> f Inr no
        have "r = Inl too_many_forks" "c' = c1" "ts' = scoped_exit ts3"
          by (simp_all add: retry_loop.simps [of iface f n c ts] Let_def)
        with \<open>head (fill_status (open_snapshot iface ts)) \<noteq> 0\<close> f Inr no True show ?thesis
          by (intro exhausted [of ts3]) simp_all
      next
        case False
        with assms \<open>head (fill_status (open_snapshot iface ts)) \<noteq> 0\<close> f Inr no
        have "retry_loop iface f (n + 1) c1 (scoped_exit ts3) = (r, c', ts')"
          by (simp add: retry_loop.simps [of iface f n c ts] Let_def)
        with \<open>head (fill_status (open_snapshot iface ts)) \<noteq> 0\<close> f Inr no False show ?thesis
          by (intro retry [of c1 ts3]) simp_all
      qed
    qed
  qed
qed

text \<open>
  The attempts of a call of the retry loop, for a callable that opens and releases no
  snapshot itself: each attempt opens one snapshot and releases it, and there are at
  most \<open>4 - num_tries\<close> of them.
\<close>

lemma retry_loop_trace:
  assumes quiet: "\<And>c ts r c' ts'. f c ts = (r, c', ts') \<Longrightarrow>
      \<exists>evs. trace ts' = trace ts @ evs \<and> snapshots evs = [] \<and> releases evs = 0"
    and run: "retry_loop iface f n c ts = (r, c', ts')"
  shows "\<exists>evs. trace ts' = trace ts @ evs \<and> releases evs = length (snapshots evs)
     \<and> 0 < length (snapshots evs) \<and> (n < 4 \<longrightarrow> length (snapshots evs) \<le> 4 - n)"
  using run
proof (induction k \<equiv> "4 - n" arbitrary: n c ts)
  case 0
  let ?A = "open_snapshot iface ts"
  let ?s = "fst (create_query_session iface (db ts))"
  from 0 have n: "\<not> n < 4"
    by simp
  from "0.prems" show ?case
  proof (cases rule: retry_loop_cases)
    case empty
    then have "trace ts' = trace ts @ [ev_open_snapshot ?s, ev_release]"
      by (simp add: scoped_exit_effect open_snapshot_effect)
    then show ?thesis
      using n by (intro exI [of _ "[ev_open_snapshot ?s, ev_release]"]) simp
  next
    case (raised e ts3)
    from quiet [OF raised(2)] obtain evs where
      "trace ts3 = trace (fill_context_data ?A) @ evs" "snapshots evs = []" "releases evs = 0"
      by blast
    with raised have "trace ts' = trace ts @ (ev_open_snapshot ?s # evs @ [ev_release])"
      by (simp add: scoped_exit_effect open_snapshot_effect fill_context_data_effect)
    then show ?thesis
      using n \<open>snapshots evs = []\<close> \<open>releases evs = 0\<close>
      by (intro exI [of _ "ev_open_snapshot ?s # evs @ [ev_release]"])
        (simp add: trace_append)
  next
    case (commit ts3)
    from quiet [OF commit(2)] obtain evs where
      "trace ts3 = trace (fill_context_data ?A) @ evs" "snapshots evs = []" "releases evs = 0"
      by blast
    with commit have "trace ts' = trace ts @ (ev_open_snapshot ?s # evs @ [ev_release])"
      by (simp add: scoped_exit_effect open_snapshot_effect fill_context_data_effect)
    then show ?thesis
      using n \<open>snapshots evs = []\<close> \<open>releases evs = 0\<close>
      by (intro exI [of _ "ev_open_snapshot ?s # evs @ [ev_release]"])
        (simp add: trace_append)
  next
    case (exhausted ts3)
    from quiet [OF exhausted(2)] obtain evs where
      "trace ts3 = trace (fill_context_data ?A) @ evs" "snapshots evs = []" "releases evs = 0"
      by blast
    with exhausted have "trace ts' = trace ts @ (ev_open_snapshot ?s # evs @ [ev_release])"
      by (simp add: scoped_exit_effect open_snapshot_effect fill_context_data_effect)
    then show ?thesis
      using n \<open>snapshots evs = []\<close> \<open>releases evs = 0\<close>
      by (intro exI [of _ "ev_open_snapshot ?s # evs @ [ev_release]"])
        (simp add: trace_append)
  next
    case (retry c1 ts3)
    with n show ?thesis
      by simp
  qed
next
  case (Suc k)
  let ?A = "open_snapshot iface ts"
  let ?s = "fst (create_query_session iface (db ts))"
  from Suc have n: "n < 4" "1 \<le> 4 - n"
    by simp_all
  from Suc.prems show ?case
  proof (cases rule: retry_loop_cases)
    case empty
    then have "trace ts' = trace ts @ [ev_open_snapshot ?s, ev_release]"
      by (simp add: scoped_exit_effect open_snapshot_effect)
    then show ?thesis
      using n by (intro exI [of _ "[ev_open_snapshot ?s, ev_release]"]) simp
  next
    case (raised e ts3)
    from quiet [OF raised(2)] obtain evs where
      "trace ts3 = trace (fill_context_data ?A) @ evs" "snapshots evs = []" "releases evs = 0"
      by blast
    with raised have "trace ts' = trace ts @ (ev_open_snapshot ?s # evs @ [ev_release])"
      by (simp add: scoped_exit_effect open_snapshot_effect fill_context_data_effect)
    then show ?thesis
      using n \<open>snapshots evs = []\<close> \<open>releases evs = 0\<close>
      by (intro exI [of _ "ev_open_snapshot ?s # evs @ [ev_release]"])
        (simp add: trace_append)
  next
    case (commit ts3)
    from quiet [OF commit(2)] obtain evs where
      "trace ts3 = trace (fill_context_data ?A) @ evs" "snapshots evs = []" "releases evs = 0"
      by blast
    with commit have "trace ts' = trace ts @ (ev_open_snapshot ?s # evs @ [ev_release])"
      by (simp add: scoped_exit_effect open_snapshot_effect fill_context_data_effect)
    then show ?thesis
      using n \<open>snapshots evs = []\<close> \<open>releases evs = 0\<close>
      by (intro exI [of _ "ev_open_snapshot ?s # evs @ [ev_release]"])
        (simp add: trace_append)
  next
    case (exhausted ts3)
    from quiet [OF exhausted(2)] obtain evs where
      "trace ts3 = trace (fill_context_data ?A) @ evs" "snapshots evs = []" "releases evs = 0"
      by blast
    with exhausted have "trace ts' = trace ts @ (ev_open_snapshot ?s # evs @ [ev_release])"
      by (simp add: scoped_exit_effect open_snapshot_effect fill_context_data_effect)
    then show ?thesis
      using n \<open>snapshots evs = []\<close> \<open>releases evs = 0\<close>
      by (intro exI [of _ "ev_open_snapshot ?s # evs @ [ev_release]"])
        (simp add: trace_append)
  next
    case (retry c1 ts3)
    from quiet [OF retry(2)] obtain evs where
      e: "trace ts3 = trace (fill_context_data ?A) @ evs" "snapshots evs = []"
        "releases evs = 0"
      by blast
    have "k = 4 - (n + 1)"
      using Suc.hyps(2) by simp
    from Suc.hyps(1) [OF this retry(4)] obtain evs' where
      e': "trace ts' = trace (scoped_exit ts3) @ evs'"
        "releases evs' = length (snapshots evs')" "0 < length (snapshots evs')"
        "n + 1 < 4 \<longrightarrow> length (snapshots evs') \<le> 4 - (n + 1)"
      by blast
    let ?evs = "(ev_open_snapshot ?s # evs @ [ev_release]) @ evs'"
    have "trace ts' = trace ts @ ?evs"
      using e e'
      by (simp add: scoped_exit_effect open_snapshot_effect fill_context_data_effect)
    moreover have "releases ?evs = length (snapshots ?evs)" "0 < length (snapshots ?evs)"
      "n < 4 \<longrightarrow> length (snapshots ?evs) \<le> 4 - n"
      using e e' retry(3) by (simp_all add: trace_append)
    ultimately show ?thesis
      by (intro exI [of _ ?evs]) blast
  qed
qed

lemma attempts_trace_Cons:
  "attempts_trace ((s, ps) # atts)
     = ev_open_snapshot s # attempt_body (Some s) ps @ ev_release # attempts_trace atts"
  by (simp add: attempts_trace_def attempt_trace_def)

lemma attempts_trace_Nil: "attempts_trace [] = []"
  by (simp add: attempts_trace_def)

lemma attempt_trace_buffer:
  "buffer_after buf (attempt_trace s ps) = last (buf # concat (map written ps))"
  by (simp add: attempt_trace_def trace_append attempt_body_buffer)

lemma attempts_trace_buffer:
  "buffer_after buf (attempts_trace atts)
     = last (buf # concat (map written (concat (map snd atts))))"
proof (induction atts arbitrary: buf)
  case Nil
  then show ?case
    by (simp add: attempts_trace_Nil)
next
  case (Cons a atts)
  obtain s ps where a: "a = (s, ps)"
    by (cases a)
  have "buffer_after buf (attempts_trace (a # atts))
      = buffer_after (buffer_after buf (attempt_body (Some s) ps)) (attempts_trace atts)"
    unfolding a attempts_trace_Cons by (simp add: trace_append)
  also have "\<dots> = last (last (buf # concat (map written ps))
      # concat (map written (concat (map snd atts))))"
    by (simp add: attempt_body_buffer Cons.IH)
  also have "\<dots> = last (buf # concat (map written (concat (map snd (a # atts)))))"
    unfolding last_last a by simp
  finally show ?case .
qed

text \<open>
  The attempts of a call of the retry loop, for a callable whose false return comes
  with the passes it made: fewer than \<open>4 - num_tries\<close> whole attempts \<open>atts\<close> in
  which the callable returned false, each under a snapshot of its own, and then, from
  the state \<open>ts0\<close>, a last attempt, which decides the result. The last attempt
  finds the database empty, or the callable raises in it, returns true, or returns
  false when it is the fourth.
\<close>

lemma retry_loop_attempts:
  assumes body: "\<And>c ts c' ts'. Q ts \<Longrightarrow> f c ts = (Inr False, c', ts') \<Longrightarrow>
      Q ts' \<and> (\<exists>ps. trace ts' = trace ts @ attempt_body (query_session ts) ps
                 \<and> reply ts' = last (reply ts # concat (map written ps)) \<and> P ps)"
    and opened: "\<And>ts. Q ts \<Longrightarrow> Q (fill_context_data (open_snapshot iface ts))"
    and released: "\<And>ts. Q ts \<Longrightarrow> Q (scoped_exit ts)"
    and start: "n < 4" "Q ts"
    and run: "retry_loop iface f n c ts = (r, c', ts')"
  shows "\<exists>c0 ts0 atts. trace ts0 = trace ts @ attempts_trace atts
     \<and> reply ts0 = last (reply ts # concat (map written (concat (map snd atts))))
     \<and> Q ts0
     \<and> list_all (\<lambda>(s, ps). P ps) atts \<and> n + length atts < 4
     \<and> (if head (fill_status (open_snapshot iface ts0)) = 0
         then r = Inl empty_database \<and> c' = c0
           \<and> ts' = scoped_exit (open_snapshot iface ts0)
         else (\<exists>r1 ts3.
           f c0 (fill_context_data (open_snapshot iface ts0)) = (r1, c', ts3)
           \<and> ts' = scoped_exit ts3
           \<and> r = (case r1 of Inl e \<Rightarrow> Inl e
                    | Inr b \<Rightarrow> if b then Inr () else Inl too_many_forks)
           \<and> (r1 = Inr False \<longrightarrow> n + length atts = 3)))"
  using start run
proof (induction k \<equiv> "4 - n" arbitrary: n c ts)
  case 0
  then show ?case
    by simp
next
  case (Suc k)
  let ?A = "open_snapshot iface ts"
  let ?s = "fst (create_query_session iface (db ts))"
  have final: ?case
    if "head (fill_status ?A) = 0 \<Longrightarrow>
          r = Inl empty_database \<and> c' = c \<and> ts' = scoped_exit ?A"
      and "head (fill_status ?A) \<noteq> 0 \<Longrightarrow> \<exists>r1 ts3.
          f c (fill_context_data ?A) = (r1, c', ts3) \<and> ts' = scoped_exit ts3
          \<and> r = (case r1 of Inl e \<Rightarrow> Inl e
                   | Inr b \<Rightarrow> if b then Inr () else Inl too_many_forks)
          \<and> (r1 = Inr False \<longrightarrow> n = 3)"
    using that Suc.prems(1,2)
    by (intro exI [of _ c] exI [of _ ts] exI [of _ "[]"]) (simp add: attempts_trace_Nil)
  from Suc.prems(3) show ?case
  proof (cases rule: retry_loop_cases)
    case empty
    then show ?thesis
      by (intro final) simp_all
  next
    case (raised e ts3)
    then show ?thesis
      by (intro final) simp_all
  next
    case (commit ts3)
    then show ?thesis
      by (intro final) simp_all
  next
    case (exhausted ts3)
    with Suc.prems(1) show ?thesis
      by (intro final) simp_all
  next
    case (retry c1 ts3)
    have q: "Q (fill_context_data ?A)"
      using Suc.prems(2) by (rule opened)
    from body [OF q retry(2)] obtain ps where
      e: "trace ts3 = trace ts @ ev_open_snapshot ?s # attempt_body (Some ?s) ps"
        "reply ts3 = last (reply ts # concat (map written ps))"
        "Q ts3" "P ps"
      by (auto simp add: open_snapshot_effect fill_context_data_effect)
    have "k = 4 - (n + 1)"
      using Suc.hyps(2) by simp
    from Suc.hyps(1) [OF this retry(3) released [OF e(3)] retry(4)]
    obtain c0 ts0 atts where
      p: "trace ts0 = trace (scoped_exit ts3) @ attempts_trace atts"
        "reply ts0 = last (reply (scoped_exit ts3)
           # concat (map written (concat (map snd atts))))"
        "Q ts0" "list_all (\<lambda>(s, ps). P ps) atts" "n + 1 + length atts < 4"
      and fin: "if head (fill_status (open_snapshot iface ts0)) = 0
         then r = Inl empty_database \<and> c' = c0
           \<and> ts' = scoped_exit (open_snapshot iface ts0)
         else (\<exists>r1 ts3.
           f c0 (fill_context_data (open_snapshot iface ts0)) = (r1, c', ts3)
           \<and> ts' = scoped_exit ts3
           \<and> r = (case r1 of Inl e \<Rightarrow> Inl e
                    | Inr b \<Rightarrow> if b then Inr () else Inl too_many_forks)
           \<and> (r1 = Inr False \<longrightarrow> n + 1 + length atts = 3))"
      by blast
    let ?whole = "(?s, ps) # atts"
    have "trace ts0 = trace ts @ attempts_trace ?whole"
      unfolding attempts_trace_Cons using e p
      by (simp add: scoped_exit_effect)
    moreover have "reply ts0
        = last (reply ts # concat (map written (concat (map snd ?whole))))"
      using e(2) p(2) last_last [of "reply ts" "concat (map written ps)"]
      by (simp add: scoped_exit_effect)
    moreover have "list_all (\<lambda>(s, ps). P ps) ?whole" "n + length ?whole < 4"
      using e p by simp_all
    moreover have "if head (fill_status (open_snapshot iface ts0)) = 0
         then r = Inl empty_database \<and> c' = c0
           \<and> ts' = scoped_exit (open_snapshot iface ts0)
         else (\<exists>r1 ts3.
           f c0 (fill_context_data (open_snapshot iface ts0)) = (r1, c', ts3)
           \<and> ts' = scoped_exit ts3
           \<and> r = (case r1 of Inl e \<Rightarrow> Inl e
                    | Inr b \<Rightarrow> if b then Inr () else Inl too_many_forks)
           \<and> (r1 = Inr False \<longrightarrow> n + length ?whole = 3))"
      using fin by (auto split: if_splits)
    ultimately show ?thesis
      using p(3) by (intro exI [of _ c0] exI [of _ ts0] exI [of _ ?whole]) blast
  qed
qed

lemma query_attempt_quiet:
  assumes "query_attempt wasm_dir iface request_blob c ts = (r, c', ts')"
  shows "\<exists>evs. trace ts' = trace ts @ evs \<and> snapshots evs = [] \<and> releases evs = 0"
  using query_attempt_passes [OF assms] attempt_body_quiet by blast

lemma legacy_attempt_quiet:
  assumes "legacy_attempt wasm_dir iface c ts = (r, c', ts')"
  shows "\<exists>evs. trace ts' = trace ts @ evs \<and> snapshots evs = [] \<and> releases evs = 0"
  using legacy_attempt_pass [OF assms] pass_events_quiet by blast

lemma attempt_passes_Nil: "attempt_passes request_blob []"
  by (simp add: attempt_passes_def split: sum.split)

lemma forked_passes_Nil: "\<not> forked_passes []"
  by (simp add: forked_passes_def)

text \<open>Every call of \<^verbatim>\<open>query\<close>: its attempts, and the reply if it returns one.\<close>

lemma query_shape:
  assumes "query wasm_dir iface ts request_blob = (res, ts')"
  shows "\<exists>ts0 atts ps.
       trace ts0 = trace ts @ attempts_trace atts
     \<and> reply ts0 = last (reply ts # concat (map written (concat (map snd atts))))
     \<and> trace ts' = trace ts @ attempts_trace atts
           @ attempt_trace (fst (create_query_session iface (db ts0))) ps
     \<and> length atts < 4
     \<and> list_all (\<lambda>(s, ps). attempt_passes request_blob ps \<and> forked_passes ps) atts
     \<and> attempt_passes request_blob ps
     \<and> (forked_passes ps \<longrightarrow> res = Inl too_many_forks \<and> length atts = 3)
     \<and> (\<forall>r. res = Inr r \<longrightarrow>
           committed_passes request_blob ps
           \<and> (\<exists>n rest. read_varuint32 request_blob = Inr (n, rest)
                 \<and> r = reply_encoding n (blobs_from (reply ts0) (map written ps)))
           \<and> (\<exists>ts3. query_attempt wasm_dir iface request_blob []
                   (fill_context_data (open_snapshot iface ts0)) = (Inr True, r, ts3)
                 \<and> ts' = scoped_exit ts3))"
proof -
  let ?f = "query_attempt wasm_dir iface request_blob"
  let ?P = "\<lambda>ps. attempt_passes request_blob ps \<and> forked_passes ps"
  obtain r0 c' where loop: "retry_loop iface ?f 0 [] ts = (r0, c', ts')"
    using assms by (auto simp add: query_def split: prod.splits sum.splits)
  with assms have res: "res = (case r0 of Inl e \<Rightarrow> Inl e | Inr u \<Rightarrow> Inr c')"
    by (auto simp add: query_def split: sum.splits)
  have body: "True \<and> (\<exists>ps. trace ts' = trace ts @ attempt_body (query_session ts) ps
        \<and> reply ts' = last (reply ts # concat (map written ps)) \<and> ?P ps)"
    if "True" "?f c ts = (Inr False, c', ts')" for c ts c' ts'
  proof -
    from query_attempt_passes [OF that(2)] obtain ps where
      "trace ts' = trace ts @ attempt_body (query_session ts) ps"
      "attempt_passes request_blob ps" "reply ts' = last (reply ts # concat (map written ps))"
      "forked_passes ps"
      by blast
    then show ?thesis
      by blast
  qed
  have "\<exists>c0 ts0 atts. trace ts0 = trace ts @ attempts_trace atts
     \<and> reply ts0 = last (reply ts # concat (map written (concat (map snd atts))))
     \<and> True
     \<and> list_all (\<lambda>(s, ps). ?P ps) atts \<and> 0 + length atts < 4
     \<and> (if head (fill_status (open_snapshot iface ts0)) = 0
         then r0 = Inl empty_database \<and> c' = c0
           \<and> ts' = scoped_exit (open_snapshot iface ts0)
         else (\<exists>r1 ts3.
           ?f c0 (fill_context_data (open_snapshot iface ts0)) = (r1, c', ts3)
           \<and> ts' = scoped_exit ts3
           \<and> r0 = (case r1 of Inl e \<Rightarrow> Inl e
                    | Inr b \<Rightarrow> if b then Inr () else Inl too_many_forks)
           \<and> (r1 = Inr False \<longrightarrow> 0 + length atts = 3)))"
    using body loop
    by (intro retry_loop_attempts [where f = ?f and Q = "\<lambda>ts. True" and P = ?P and n = 0
          and c = "[]" and ts = ts]) (simp_all del: last.simps)
  then obtain c0 ts0 atts where
    p: "trace ts0 = trace ts @ attempts_trace atts"
      "reply ts0 = last (reply ts # concat (map written (concat (map snd atts))))"
      "list_all (\<lambda>(s, ps). ?P ps) atts" "0 + length atts < 4"
    and fin: "if head (fill_status (open_snapshot iface ts0)) = 0
         then r0 = Inl empty_database \<and> c' = c0
           \<and> ts' = scoped_exit (open_snapshot iface ts0)
         else (\<exists>r1 ts3.
           ?f c0 (fill_context_data (open_snapshot iface ts0)) = (r1, c', ts3)
           \<and> ts' = scoped_exit ts3
           \<and> r0 = (case r1 of Inl e \<Rightarrow> Inl e
                    | Inr b \<Rightarrow> if b then Inr () else Inl too_many_forks)
           \<and> (r1 = Inr False \<longrightarrow> 0 + length atts = 3))"
    by blast
  from p(4) have len: "length atts < 4"
    by simp
  let ?A = "fill_context_data (open_snapshot iface ts0)"
  let ?s = "fst (create_query_session iface (db ts0))"
  have A: "trace ?A = trace ts0 @ [ev_open_snapshot ?s]" "query_session ?A = Some ?s"
    "reply ?A = reply ts0"
    by (simp_all add: open_snapshot_effect fill_context_data_effect)
  show ?thesis
  proof (cases "head (fill_status (open_snapshot iface ts0)) = 0")
    case True
    with fin have "r0 = Inl empty_database" "ts' = scoped_exit (open_snapshot iface ts0)"
      by simp_all
    with res p have "res = Inl empty_database"
      "trace ts' = trace ts @ attempts_trace atts @ attempt_trace ?s []"
      by (simp_all add: scoped_exit_effect open_snapshot_effect attempt_trace_def
          attempt_body_Nil del: last.simps)
    with p len show ?thesis
      by (intro exI [of _ ts0] exI [of _ atts] exI [of _ "[]"])
        (simp add: attempt_passes_Nil forked_passes_Nil del: last.simps)
  next
    case False
    with fin have "\<exists>r1 ts3. ?f c0 ?A = (r1, c', ts3) \<and> ts' = scoped_exit ts3
        \<and> r0 = (case r1 of Inl e \<Rightarrow> Inl e
                 | Inr b \<Rightarrow> if b then Inr () else Inl too_many_forks)
        \<and> (r1 = Inr False \<longrightarrow> length atts = 3)"
      by simp
    then obtain r1 ts3 where
      att: "?f c0 ?A = (r1, c', ts3)" and out: "ts' = scoped_exit ts3"
      and r0: "r0 = (case r1 of Inl e \<Rightarrow> Inl e
                    | Inr b \<Rightarrow> if b then Inr () else Inl too_many_forks)"
      and four: "r1 = Inr False \<longrightarrow> length atts = 3"
      by blast
    from query_attempt_passes [OF att] obtain ps where
      e: "trace ts3 = trace ?A @ attempt_body (query_session ?A) ps"
        "attempt_passes request_blob ps" "forked_passes ps = (r1 = Inr False)"
      and c: "r1 = Inr True \<longrightarrow>
          committed_passes request_blob ps
          \<and> (\<exists>n rest. read_varuint32 request_blob = Inr (n, rest)
                \<and> c' = reply_encoding n (blobs_from (reply ?A) (map written ps)))"
      by blast
    have t: "trace ts' = trace ts @ attempts_trace atts @ attempt_trace ?s ps"
      using out e(1) A p(1) by (simp add: scoped_exit_effect attempt_trace_def)
    have f: "forked_passes ps \<longrightarrow> res = Inl too_many_forks \<and> length atts = 3"
      using e(3) four r0 res by (simp del: last.simps)
    have "committed_passes request_blob ps
           \<and> (\<exists>n rest. read_varuint32 request_blob = Inr (n, rest)
                 \<and> r = reply_encoding n (blobs_from (reply ts0) (map written ps)))
           \<and> (\<exists>ts3. ?f [] ?A = (Inr True, r, ts3) \<and> ts' = scoped_exit ts3)"
      if "res = Inr r" for r
    proof -
      from that res r0 have r1: "r1 = Inr True" and r: "c' = r"
        by (auto split: sum.splits if_splits)
      from query_attempt_discards [OF att [unfolded r1], of "[]"] out r
      have "\<exists>ts3. ?f [] ?A = (Inr True, r, ts3) \<and> ts' = scoped_exit ts3"
        by blast
      with c r1 r A(3) show ?thesis
        by (simp del: last.simps)
    qed
    with p(1,2,3) len t e(2) f show ?thesis
      by (intro exI [of _ ts0] exI [of _ atts] exI [of _ ps]) blast
  qed
qed

text \<open>Every call of \<^verbatim>\<open>legacy_query\<close>, likewise.\<close>

lemma legacy_query_shape:
  fixes ts :: "('s, 'w) thread_state"
  assumes "legacy_query wasm_dir iface ts target request_bytes = (res, ts')"
    and "req = bytes_to_bin target @ bytes_to_bin request_bytes"
  shows "\<exists>(ts0 :: ('s, 'w) thread_state) atts ps.
       trace ts' = trace ts @ attempts_trace atts
           @ attempt_trace (fst (create_query_session iface (db ts0))) ps
     \<and> length atts < 4
     \<and> list_all (\<lambda>(s, ps). map served ps = [(legacy_n, req)]
           \<and> map ending ps = [Some True]) atts
     \<and> (ps = [] \<or> map served ps = [(legacy_n, req)])
     \<and> (forked_passes ps \<longrightarrow> res = Inl too_many_forks \<and> length atts = 3)
     \<and> (\<forall>r. res = Inr r \<longrightarrow>
           map served ps = [(legacy_n, req)] \<and> map ending ps = [Some False]
           \<and> r = last (reply ts # concat (map written (concat (map snd atts) @ ps))))"
proof -
  let ?f = "legacy_attempt wasm_dir iface"
  let ?P = "\<lambda>ps. map served ps = [(legacy_n, req)] \<and> map ending ps = [Some True]"
  let ?Q = "\<lambda>ts :: ('s, 'w) thread_state. request ts = req"
  let ?ts = "ts\<lparr>request := req\<rparr>"
  obtain r0 c' where loop: "retry_loop iface ?f 0 () ?ts = (r0, c', ts')"
    using assms by (auto simp add: legacy_query_def Let_def split: prod.splits sum.splits)
  with assms have res: "res = (case r0 of Inl e \<Rightarrow> Inl e | Inr u \<Rightarrow> Inr (reply ts'))"
    by (auto simp add: legacy_query_def Let_def split: sum.splits)
  have body: "?Q ts' \<and> (\<exists>ps. trace ts' = trace ts @ attempt_body (query_session ts) ps
        \<and> reply ts' = last (reply ts # concat (map written ps)) \<and> ?P ps)"
    if "?Q ts" "?f c ts = (Inr False, c', ts')" for c ts c' ts'
  proof -
    from legacy_attempt_pass [OF that(2)] that(1) obtain outs where
      "trace ts' = trace ts @ pass_events (query_session ts) (legacy_pass req outs (Some True))"
      "reply ts' = last (reply ts # outs)" "request ts' = req"
      by (auto simp del: last.simps)
    then show ?thesis
      by (intro conjI exI [of _ "[legacy_pass req outs (Some True)]"])
        (simp_all add: attempt_body_Cons attempt_body_Nil legacy_pass_def del: last.simps)
  qed
  have "\<exists>c0 ts0 atts. trace ts0 = trace ?ts @ attempts_trace atts
     \<and> reply ts0 = last (reply ?ts # concat (map written (concat (map snd atts))))
     \<and> ?Q ts0
     \<and> list_all (\<lambda>(s, ps). ?P ps) atts \<and> 0 + length atts < 4
     \<and> (if head (fill_status (open_snapshot iface ts0)) = 0
         then r0 = Inl empty_database \<and> c' = c0
           \<and> ts' = scoped_exit (open_snapshot iface ts0)
         else (\<exists>r1 ts3.
           ?f c0 (fill_context_data (open_snapshot iface ts0)) = (r1, c', ts3)
           \<and> ts' = scoped_exit ts3
           \<and> r0 = (case r1 of Inl e \<Rightarrow> Inl e
                    | Inr b \<Rightarrow> if b then Inr () else Inl too_many_forks)
           \<and> (r1 = Inr False \<longrightarrow> 0 + length atts = 3)))"
  proof (intro retry_loop_attempts [where f = ?f and Q = ?Q and P = ?P and n = 0
          and c = "()" and ts = ?ts])
    show "(0::nat) < 4"
      by simp
    show "?Q ?ts"
      by simp
    show "retry_loop iface ?f 0 () ?ts = (r0, c', ts')"
      by (rule loop)
    show "?Q ts' \<and> (\<exists>ps. trace ts' = trace ts @ attempt_body (query_session ts) ps
        \<and> reply ts' = last (reply ts # concat (map written ps)) \<and> ?P ps)"
      if "?Q ts" "?f c ts = (Inr False, c', ts')" for c ts c' ts'
      using that by (rule body)
    show "?Q (fill_context_data (open_snapshot iface ts))" if "?Q ts" for ts
      using that by (simp add: open_snapshot_effect fill_context_data_effect)
    show "?Q (scoped_exit ts)" if "?Q ts" for ts
      using that by (simp add: scoped_exit_effect)
  qed
  then obtain c0 ts0 atts where
    p: "trace ts0 = trace ?ts @ attempts_trace atts"
      "reply ts0 = last (reply ?ts # concat (map written (concat (map snd atts))))"
      "request ts0 = req"
      "list_all (\<lambda>(s, ps). ?P ps) atts" "0 + length atts < 4"
    and fin: "if head (fill_status (open_snapshot iface ts0)) = 0
         then r0 = Inl empty_database \<and> c' = c0
           \<and> ts' = scoped_exit (open_snapshot iface ts0)
         else (\<exists>r1 ts3.
           ?f c0 (fill_context_data (open_snapshot iface ts0)) = (r1, c', ts3)
           \<and> ts' = scoped_exit ts3
           \<and> r0 = (case r1 of Inl e \<Rightarrow> Inl e
                    | Inr b \<Rightarrow> if b then Inr () else Inl too_many_forks)
           \<and> (r1 = Inr False \<longrightarrow> 0 + length atts = 3))"
    by blast
  from p(5) have len: "length atts < 4"
    by simp
  let ?A = "fill_context_data (open_snapshot iface ts0)"
  let ?s = "fst (create_query_session iface (db ts0))"
  have A: "trace ?A = trace ts0 @ [ev_open_snapshot ?s]" "query_session ?A = Some ?s"
    "reply ?A = reply ts0" "request ?A = req"
    using p(3) by (simp_all add: open_snapshot_effect fill_context_data_effect)
  show ?thesis
  proof (cases "head (fill_status (open_snapshot iface ts0)) = 0")
    case True
    with fin have "r0 = Inl empty_database" "ts' = scoped_exit (open_snapshot iface ts0)"
      by simp_all
    with res p have "res = Inl empty_database"
      "trace ts' = trace ts @ attempts_trace atts @ attempt_trace ?s []"
      by (simp_all add: scoped_exit_effect open_snapshot_effect attempt_trace_def
          attempt_body_Nil del: last.simps)
    with p len show ?thesis
      by (intro exI [of _ ts0] exI [of _ atts] exI [of _ "[]"])
        (simp add: forked_passes_Nil del: last.simps)
  next
    case False
    with fin have "\<exists>r1 ts3. ?f c0 ?A = (r1, c', ts3) \<and> ts' = scoped_exit ts3
        \<and> r0 = (case r1 of Inl e \<Rightarrow> Inl e
                 | Inr b \<Rightarrow> if b then Inr () else Inl too_many_forks)
        \<and> (r1 = Inr False \<longrightarrow> length atts = 3)"
      by simp
    then obtain r1 ts3 where
      att: "?f c0 ?A = (r1, c', ts3)" and out: "ts' = scoped_exit ts3"
      and r0: "r0 = (case r1 of Inl e \<Rightarrow> Inl e
                    | Inr b \<Rightarrow> if b then Inr () else Inl too_many_forks)"
      and four: "r1 = Inr False \<longrightarrow> length atts = 3"
      by blast
    from legacy_attempt_pass [OF att] A obtain outs e where
      e: "trace ts3 = trace ts0 @ ev_open_snapshot ?s
            # pass_events (Some ?s) (legacy_pass req outs e)"
        "reply ts3 = last (reply ts0 # outs)"
        "(e = Some True) = (r1 = Inr False)" "(e = Some False) = (r1 = Inr True)"
      by (auto simp del: last.simps)
    let ?ps = "[legacy_pass req outs e]"
    have t: "trace ts' = trace ts @ attempts_trace atts @ attempt_trace ?s ?ps"
      using out e(1) p(1)
      by (simp add: scoped_exit_effect attempt_trace_def attempt_body_Cons attempt_body_Nil)
    have s: "map served ?ps = [(legacy_n, req)]"
      by (simp add: legacy_pass_def)
    have f: "forked_passes ?ps \<longrightarrow> res = Inl too_many_forks \<and> length atts = 3"
      using e(3) four r0 res by (auto simp add: forked_passes_def legacy_pass_def)
    have "map ending ?ps = [Some False]
        \<and> r = last (reply ts # concat (map written (concat (map snd atts) @ ?ps)))"
      if "res = Inr r" for r
    proof -
      from that res r0 have r1: "r1 = Inr True" and r: "r = reply ts'"
        by (auto split: sum.splits if_splits)
      have "r = last (last (reply ts # concat (map written (concat (map snd atts)))) # outs)"
        using r out e(2) p(2) by (simp add: scoped_exit_effect del: last.simps)
      then have "r = last (reply ts # concat (map written (concat (map snd atts) @ ?ps)))"
        unfolding last_last by (simp add: legacy_pass_def del: last.simps)
      with r1 e(4) show ?thesis
        by (simp add: legacy_pass_def del: last.simps)
    qed
    with len t s f show ?thesis
      using p(4) by (intro exI [of _ ts0] exI [of _ atts] exI [of _ ?ps]) blast
  qed
qed

text \<open>A reply that is returned, and the attempts it follows.\<close>

lemma query_commit:
  assumes "query wasm_dir iface ts request_blob = (Inr r, ts')"
  shows "\<exists>ts0 ts3 atts ps n rest.
       trace ts' = trace ts @ attempts_trace atts
           @ attempt_trace (fst (create_query_session iface (db ts0))) ps
     \<and> trace ts0 = trace ts @ attempts_trace atts
     \<and> reply ts0 = last (reply ts # concat (map written (concat (map snd atts))))
     \<and> length atts < 4
     \<and> list_all (\<lambda>(s, ps). attempt_passes request_blob ps \<and> forked_passes ps) atts
     \<and> attempt_passes request_blob ps \<and> committed_passes request_blob ps
     \<and> read_varuint32 request_blob = Inr (n, rest)
     \<and> r = reply_encoding n (blobs_from (reply ts0) (map written ps))
     \<and> query_attempt wasm_dir iface request_blob []
           (fill_context_data (open_snapshot iface ts0)) = (Inr True, r, ts3)
     \<and> ts' = scoped_exit ts3"
proof -
  from query_shape [OF assms] obtain ts0 atts ps where
    p: "trace ts0 = trace ts @ attempts_trace atts"
      "reply ts0 = last (reply ts # concat (map written (concat (map snd atts))))"
      "trace ts' = trace ts @ attempts_trace atts
           @ attempt_trace (fst (create_query_session iface (db ts0))) ps"
      "length atts < 4"
      "list_all (\<lambda>(s, ps). attempt_passes request_blob ps \<and> forked_passes ps) atts"
      "attempt_passes request_blob ps"
    and c: "\<forall>ra. Inr r = Inr ra \<longrightarrow>
           committed_passes request_blob ps
           \<and> (\<exists>n rest. read_varuint32 request_blob = Inr (n, rest)
                 \<and> ra = reply_encoding n (blobs_from (reply ts0) (map written ps)))
           \<and> (\<exists>ts3. query_attempt wasm_dir iface request_blob []
                   (fill_context_data (open_snapshot iface ts0)) = (Inr True, ra, ts3)
                 \<and> ts' = scoped_exit ts3)"
    by blast
  from c [rule_format, OF refl] obtain n rest ts3 where
    "committed_passes request_blob ps" "read_varuint32 request_blob = Inr (n, rest)"
    "r = reply_encoding n (blobs_from (reply ts0) (map written ps))"
    "query_attempt wasm_dir iface request_blob []
       (fill_context_data (open_snapshot iface ts0)) = (Inr True, r, ts3)"
    "ts' = scoped_exit ts3"
    by blast
  with p show ?thesis
    by (intro exI [of _ ts0] exI [of _ ts3] exI [of _ atts] exI [of _ ps] exI [of _ n]
        exI [of _ rest] conjI)
qed

lemma legacy_query_commit:
  fixes ts :: "('s, 'w) thread_state"
  assumes "legacy_query wasm_dir iface ts target request_bytes = (Inr r, ts')"
    and "req = bytes_to_bin target @ bytes_to_bin request_bytes"
  shows "\<exists>atts s outs.
       trace ts' = trace ts @ attempts_trace atts
           @ attempt_trace s [legacy_pass req outs (Some False)]
     \<and> length atts < 4
     \<and> list_all (\<lambda>(s, ps). map served ps = [(legacy_n, req)]
           \<and> map ending ps = [Some True]) atts
     \<and> r = last (reply ts # concat (map written (concat (map snd atts))) @ outs)"
proof -
  from legacy_query_shape [OF assms] obtain ts0 :: "('s, 'w) thread_state"
    and atts ps where
    p: "trace ts' = trace ts @ attempts_trace atts
          @ attempt_trace (fst (create_query_session iface (db ts0))) ps"
      "length atts < 4"
      "list_all (\<lambda>(s, ps). map served ps = [(legacy_n, req)]
         \<and> map ending ps = [Some True]) atts"
    and c: "\<forall>ra. Inr r = Inr ra \<longrightarrow>
           map served ps = [(legacy_n, req)] \<and> map ending ps = [Some False]
           \<and> ra = last (reply ts # concat (map written (concat (map snd atts) @ ps)))"
    by blast
  from c [rule_format, OF refl] have
    q: "map served ps = [(legacy_n, req)]" "map ending ps = [Some False]"
      "r = last (reply ts # concat (map written (concat (map snd atts) @ ps)))"
    by blast+
  from q(1,2) obtain p1 where ps: "ps = [p1]"
    by (cases ps) auto
  with q(1,2) have p1: "p1 = legacy_pass req (written p1) (Some False)"
    by (simp add: legacy_pass_def)
  have w: "concat (map written (concat (map snd atts) @ ps))
      = concat (map written (concat (map snd atts))) @ written p1"
    unfolding ps by simp
  have "trace ts' = trace ts @ attempts_trace atts
      @ attempt_trace (fst (create_query_session iface (db ts0)))
          [legacy_pass req (written p1) (Some False)]"
    using p(1) ps p1 by simp
  moreover have "r = last (reply ts
      # concat (map written (concat (map snd atts))) @ written p1)"
    using q(3) unfolding w .
  ultimately show ?thesis
    using p(2,3)
    by (intro exI [of _ atts] exI [of _ "fst (create_query_session iface (db ts0))"]
        exI [of _ "written p1"] conjI)
qed

section \<open>The store and the guests of the examples\<close>

lemma read_back: "read_bytes (memcpy w d bs) d (d + length bs) = bs"
  unfolding read_bytes_def memcpy_def
  by (rule nth_equalityI) simp_all

lemma run_writer:
  assumes "length bs < 2 ^ 32" and "wasm_dir short_name ts = Inr (writer bs)"
  shows "run_query wasm_dir iface ts short_name =
     (Inr (), ts\<lparr>wa := memcpy (wa ts) 0 bs, reply := bs,
               trace := trace ts
                 @ [ev_run_query (query_session ts) short_name (request ts),
                    ev_set_output bs]\<rparr>)"
proof -
  have "unat (of_nat (length bs) :: 32 word) = length bs"
    using assms(1) by (simp add: unat_of_nat)
  with assms read_back [of "wa ts" 0 bs] show ?thesis
    by (simp add: run_query_def writer_def set_output_data_def check_bounds_def Let_def)
qed

lemma run_silent:
  assumes "wasm_dir short_name ts = Inr silent"
  shows "run_query wasm_dir iface ts short_name =
     (Inr (), ts\<lparr>trace := trace ts
                 @ [ev_run_query (query_session ts) short_name (request ts)]\<rparr>)"
  using assms by (simp add: run_query_def silent_def Let_def)

lemma clock_store_fork:
  assumes "query_session ts = Some s" and "head_id (fill_status ts) = id_a"
  shows "did_fork (clock_store h forked) ts =
     (Inr (forked (db ts)),
      ts\<lparr>db := db ts + 1, trace := trace ts @ [ev_fork_check (Some s) (forked (db ts))]\<rparr>)"
  using assms by (simp add: did_fork_def clock_store_def Let_def id_a_def id_b_def)

lemma read_sub_request:
  "read_input_buffer (sub_request k @ rest) = Inr (tl (sub_request k), rest)"
  "read_input_buffer (sub_request k) = Inr (tl (sub_request k), [])"
  by (simp_all add: read_input_buffer_def read_varuint32_def sub_request_def)

lemma read_local: "read_name (tl (sub_request k)) = Inr (local_n, [k, 0, 0, 0, 0, 0, 0, 0])"
  by (simp add: read_name_def sub_request_def le_word_def local_n_def)

lemma read_short_name:
  "read_name [1, 0, 0, 0, 0, 0, 0, 0] = Inr (\<lparr>name_value = 1\<rparr>, [])"
  "read_name [2, 0, 0, 0, 0, 0, 0, 0] = Inr (\<lparr>name_value = 2\<rparr>, [])"
  "read_name [3, 0, 0, 0, 0, 0, 0, 0] = Inr (\<lparr>name_value = 3\<rparr>, [])"
  by (simp_all add: read_name_def le_word_def)

lemma modules_names:
  "modules \<lparr>name_value = 1\<rparr> ts = Inr (writer [7])"
  "modules \<lparr>name_value = 2\<rparr> ts = Inr silent"
  "modules \<lparr>name_value = 3\<rparr> ts = Inr (writer [8, 9])"
  by (simp_all add: modules_def)

lemma varuint32_bytes_small:
  "varuint32_bytes 0 = [0]" "varuint32_bytes 1 = [1]" "varuint32_bytes 2 = [2]"
  "varuint32_bytes 3 = [3]"
  by (simp_all add: varuint32_bytes.simps [of 0] varuint32_bytes.simps [of 1]
      varuint32_bytes.simps [of 2] varuint32_bytes.simps [of 3])

lemma read_count: "read_varuint32 (0 # rest) = Inr (0, rest)"
  "read_varuint32 (1 # rest) = Inr (1, rest)" "read_varuint32 (2 # rest) = Inr (2, rest)"
  "read_varuint32 (3 # rest) = Inr (3, rest)"
  by (simp_all add: read_varuint32_def)

lemma clock_store_open:
  "open_snapshot (clock_store h forked) ts =
     ts\<lparr>query_session := Some (db ts), db := db ts + 2,
        trace := trace ts @ [ev_open_snapshot (db ts)],
        fill_status :=
          \<lparr>head = h, head_id = id_a, irreversible = h, irreversible_id = id_a, first = 1\<rparr>\<rparr>"
  by (simp add: open_snapshot_def clock_store_def)

lemma run_modules:
  "run_query modules iface ts \<lparr>name_value = 1\<rparr> =
     (Inr (), ts\<lparr>wa := memcpy (wa ts) 0 [7], reply := [7],
               trace := trace ts
                 @ [ev_run_query (query_session ts) \<lparr>name_value = 1\<rparr> (request ts),
                    ev_set_output [7]]\<rparr>)"
  "run_query modules iface ts \<lparr>name_value = 2\<rparr> =
     (Inr (), ts\<lparr>trace := trace ts
                 @ [ev_run_query (query_session ts) \<lparr>name_value = 2\<rparr> (request ts)]\<rparr>)"
  "run_query modules iface ts \<lparr>name_value = 3\<rparr> =
     (Inr (), ts\<lparr>wa := memcpy (wa ts) 0 [8, 9], reply := [8, 9],
               trace := trace ts
                 @ [ev_run_query (query_session ts) \<lparr>name_value = 3\<rparr> (request ts),
                    ev_set_output [8, 9]]\<rparr>)"
  by (simp_all add: run_writer run_silent modules_names)

lemma run_fickle:
  "run_query fickle iface ts short_name =
     (if query_session ts = Some 0
      then (Inr (), ts\<lparr>wa := memcpy (wa ts) 0 [7], reply := [7],
                      trace := trace ts
                        @ [ev_run_query (query_session ts) short_name (request ts),
                           ev_set_output [7]]\<rparr>)
      else (Inr (), ts\<lparr>trace := trace ts
                        @ [ev_run_query (query_session ts) short_name (request ts)]\<rparr>))"
proof (cases "query_session ts = Some 0")
  case True
  then have "fickle short_name ts = Inr (writer [7])"
    by (simp add: fickle_def)
  with True show ?thesis
    by (simp add: run_writer [where wasm_dir = fickle and bs = "[7]"])
next
  case False
  then have "fickle short_name ts = Inr silent"
    by (simp add: fickle_def)
  with False show ?thesis
    by (simp add: run_silent [where wasm_dir = fickle])
qed

lemma sub_requests_numeral:
  "sub_requests wasm_dir iface (numeral k) request_bin result ts
     = sub_requests wasm_dir iface (Suc (pred_numeral k)) request_bin result ts"
  by (simp only: numeral_eq_Suc)

lemmas example_steps =
  query_def query_attempt_def retry_loop.simps push_varuint32_def fill_context_data_def
  scoped_exit_def Let_def sub_requests_numeral
  run_modules run_fickle clock_store_fork read_sub_request read_local read_short_name
  varuint32_bytes_small read_count clock_store_open

lemmas legacy_steps =
  legacy_query_def legacy_attempt_def bytes_to_bin_def retry_loop.simps push_varuint32_def
  fill_context_data_def scoped_exit_def Let_def run_fickle clock_store_fork
  varuint32_bytes_small clock_store_open

section \<open>The retry bound\<close>

lemma retry_loop_false:
  assumes "head (fill_status (open_snapshot iface ts)) \<noteq> 0"
    and "f c (fill_context_data (open_snapshot iface ts)) = (Inr False, c', ts3)"
  shows "retry_loop iface f n c ts =
     (if 4 \<le> n + 1 then (Inl too_many_forks, c', scoped_exit ts3)
      else retry_loop iface f (n + 1) c' (scoped_exit ts3))"
  using assms by (simp add: retry_loop.simps [of iface f n c ts] Let_def)

lemma retry_loop_true:
  assumes "head (fill_status (open_snapshot iface ts)) \<noteq> 0"
    and "f c (fill_context_data (open_snapshot iface ts)) = (Inr True, c', ts3)"
  shows "retry_loop iface f n c ts = (Inr (), c', scoped_exit ts3)"
  using assms by (simp add: retry_loop.simps [of iface f n c ts] Let_def)

lemma retry_loop_empty:
  assumes "head (fill_status (open_snapshot iface ts)) = 0"
  shows "retry_loop iface f n c ts
     = (Inl empty_database, c, scoped_exit (open_snapshot iface ts))"
  using assms by (simp add: retry_loop.simps [of iface f n c ts] Let_def)

lemma query_attempts:
  "length (snapshots (trace (snd (query wasm_dir iface ts request_blob))))
     \<le> length (snapshots (trace ts)) + 4"
proof -
  let ?f = "query_attempt wasm_dir iface request_blob"
  obtain r c' ts' where loop: "retry_loop iface ?f 0 [] ts = (r, c', ts')"
    by (cases "retry_loop iface ?f 0 [] ts")
  have "\<And>c ts r c' ts'. ?f c ts = (r, c', ts') \<Longrightarrow>
      \<exists>evs. trace ts' = trace ts @ evs \<and> snapshots evs = [] \<and> releases evs = 0"
    using query_attempt_quiet by blast
  then have "\<exists>evs. trace ts' = trace ts @ evs \<and> releases evs = length (snapshots evs)
     \<and> 0 < length (snapshots evs) \<and> ((0::nat) < 4 \<longrightarrow> length (snapshots evs) \<le> 4 - 0)"
    using loop by (intro retry_loop_trace [where f = ?f and n = 0 and c = "[]"])
  then obtain evs where "trace ts' = trace ts @ evs" "length (snapshots evs) \<le> 4"
    by auto
  moreover have "snd (query wasm_dir iface ts request_blob) = ts'"
    using loop by (simp add: query_def split: sum.splits)
  ultimately show ?thesis
    by (simp add: trace_append)
qed

lemma legacy_query_attempts:
  "length (snapshots (trace (snd (legacy_query wasm_dir iface ts target request_bytes))))
     \<le> length (snapshots (trace ts)) + 4"
proof -
  let ?f = "legacy_attempt wasm_dir iface"
  let ?ts = "ts\<lparr>request := bytes_to_bin target @ bytes_to_bin request_bytes\<rparr>"
  obtain r c' ts' where loop: "retry_loop iface ?f 0 () ?ts = (r, c', ts')"
    by (cases "retry_loop iface ?f 0 () ?ts")
  have "\<And>c ts r c' ts'. ?f c ts = (r, c', ts') \<Longrightarrow>
      \<exists>evs. trace ts' = trace ts @ evs \<and> snapshots evs = [] \<and> releases evs = 0"
    using legacy_attempt_quiet by blast
  then have "\<exists>evs. trace ts' = trace ?ts @ evs \<and> releases evs = length (snapshots evs)
     \<and> 0 < length (snapshots evs) \<and> ((0::nat) < 4 \<longrightarrow> length (snapshots evs) \<le> 4 - 0)"
    using loop by (intro retry_loop_trace [where f = ?f and n = 0 and c = "()"])
  then obtain evs where "trace ts' = trace ?ts @ evs" "length (snapshots evs) \<le> 4"
    by auto
  moreover have "snd (legacy_query wasm_dir iface ts target request_bytes) = ts'"
    using loop by (simp add: legacy_query_def Let_def split: sum.splits)
  ultimately show ?thesis
    by (simp add: trace_append)
qed

text \<open>
  Claim C3. A request makes at most 4 attempts: \<^verbatim>\<open>query\<close> and \<^verbatim>\<open>legacy_query\<close> open
  at most 4 snapshots, one for each attempt. An attempt that ends in a detected fork
  (the callable returns false) is followed by the next attempt while
  \<^verbatim>\<open>++num_tries\<close> stays below 4, and when it is the 4th attempt (\<^verbatim>\<open>num_tries\<close> is 3
  at its start) the loop raises \<^verbatim>\<open>too_many_forks\<close> and enters no 5th. An attempt that
  succeeds without a fork (the callable returns true) makes the loop return at once,
  whatever the number of the attempt.
\<close>

theorem retry_loop_four_attempts:
  "length (snapshots (trace (snd (query wasm_dir iface ts request_blob))))
     \<le> length (snapshots (trace ts)) + 4
   \<and> length (snapshots (trace (snd (legacy_query wasm_dir iface ts target request_bytes))))
     \<le> length (snapshots (trace ts)) + 4
   \<and> (head (fill_status (open_snapshot iface ts)) \<noteq> 0
       \<and> f c (fill_context_data (open_snapshot iface ts)) = (Inr False, c', tsf) \<longrightarrow>
         retry_loop iface f 3 c ts = (Inl too_many_forks, c', scoped_exit tsf)
         \<and> retry_loop iface f num_tries c ts =
             (if 4 \<le> num_tries + 1 then (Inl too_many_forks, c', scoped_exit tsf)
              else retry_loop iface f (num_tries + 1) c' (scoped_exit tsf)))
   \<and> (head (fill_status (open_snapshot iface ts)) \<noteq> 0
       \<and> f c (fill_context_data (open_snapshot iface ts)) = (Inr True, c', tsf) \<longrightarrow>
         retry_loop iface f num_tries c ts = (Inr (), c', scoped_exit tsf))"
proof -
  have forked: "retry_loop iface f 3 c ts = (Inl too_many_forks, c', scoped_exit tsf)
         \<and> retry_loop iface f num_tries c ts =
             (if 4 \<le> num_tries + 1 then (Inl too_many_forks, c', scoped_exit tsf)
              else retry_loop iface f (num_tries + 1) c' (scoped_exit tsf))"
    if "head (fill_status (open_snapshot iface ts)) \<noteq> 0"
      and "f c (fill_context_data (open_snapshot iface ts)) = (Inr False, c', tsf)"
    using retry_loop_false [where f = f and c = c and n = 3, OF that]
      retry_loop_false [where f = f and c = c and n = num_tries, OF that]
    by simp
  have committed: "retry_loop iface f num_tries c ts = (Inr (), c', scoped_exit tsf)"
    if "head (fill_status (open_snapshot iface ts)) \<noteq> 0"
      and "f c (fill_context_data (open_snapshot iface ts)) = (Inr True, c', tsf)"
    using retry_loop_true [where f = f and c = c, OF that] by simp
  from query_attempts [of wasm_dir iface ts request_blob]
    legacy_query_attempts [of wasm_dir iface ts target request_bytes] forked committed
  show ?thesis
    by blast
qed

theorem retry_loop_four_attempts_witness:
  "head (fill_status (open_snapshot (clock_store 100 (\<lambda>w. True)) idle)) \<noteq> 0
   \<and> retry_loop (clock_store 100 (\<lambda>w. True)) (\<lambda>c ts. (Inr False, c, ts)) 3 () idle
       = (Inl too_many_forks, (),
          scoped_exit (fill_context_data (open_snapshot (clock_store 100 (\<lambda>w. True)) idle)))
   \<and> retry_loop (clock_store 100 (\<lambda>w. True)) (\<lambda>c ts. (Inr True, c, ts)) 0 () idle
       = (Inr (), (),
          scoped_exit (fill_context_data (open_snapshot (clock_store 100 (\<lambda>w. True)) idle)))"
proof -
  let ?st = "clock_store 100 (\<lambda>w. True)"
  let ?A = "fill_context_data (open_snapshot ?st idle)"
  have h: "head (fill_status (open_snapshot ?st idle)) \<noteq> 0"
    by (simp add: clock_store_open idle_def)
  have "retry_loop ?st (\<lambda>c ts. (Inr False, c, ts)) 3 () idle
      = (Inl too_many_forks, (), scoped_exit ?A)"
    using h
      retry_loop_four_attempts [where iface = ?st and ts = idle
        and f = "\<lambda>c ts. (Inr False, c, ts)" and c = "()" and c' = "()" and tsf = ?A]
    by simp
  moreover have "retry_loop ?st (\<lambda>c ts. (Inr True, c, ts)) 0 () idle
      = (Inr (), (), scoped_exit ?A)"
    using h
      retry_loop_four_attempts [where iface = ?st and ts = idle
        and f = "\<lambda>c ts. (Inr True, c, ts)" and c = "()" and c' = "()" and tsf = ?A
        and num_tries = 0]
    by simp
  ultimately show ?thesis
    using h by simp
qed

section \<open>The empty database\<close>

lemma open_snapshot_request:
  "open_snapshot iface (ts\<lparr>request := r\<rparr>) = (open_snapshot iface ts)\<lparr>request := r\<rparr>"
  by (simp add: open_snapshot_def Let_def split: prod.splits)

lemma query_empty:
  assumes "head (fill_status (open_snapshot iface ts)) = 0"
  shows "query wasm_dir iface ts request_blob
     = (Inl empty_database, scoped_exit (open_snapshot iface ts))"
  using assms by (simp add: query_def retry_loop_empty)

lemma legacy_query_empty:
  assumes "head (fill_status (open_snapshot iface ts)) = 0"
  shows "legacy_query wasm_dir iface ts target request_bytes
     = (Inl empty_database,
        scoped_exit
          ((open_snapshot iface ts)
             \<lparr>request := bytes_to_bin target @ bytes_to_bin request_bytes\<rparr>))"
  using assms by (simp add: legacy_query_def retry_loop_empty open_snapshot_request Let_def)

text \<open>
  Claim C6. An attempt whose fresh snapshot reports head 0 makes the whole request
  fail with \<^verbatim>\<open>empty_database\<close>: the retry loop raises it at any attempt without applying
  the callable, so whatever the callable is; \<^verbatim>\<open>query\<close> and \<^verbatim>\<open>legacy_query\<close> on an empty
  database raise it in their first attempt, and all they add to the trace is the
  snapshot opened and released: no guest module is run.
\<close>

theorem empty_database_before_guest:
  assumes "head (fill_status (open_snapshot iface ts)) = 0"
  shows "retry_loop iface f num_tries c ts
       = (Inl empty_database, c, scoped_exit (open_snapshot iface ts))
   \<and> query wasm_dir iface ts request_blob
       = (Inl empty_database, scoped_exit (open_snapshot iface ts))
   \<and> fst (legacy_query wasm_dir iface ts target request_bytes) = Inl empty_database
   \<and> trace (snd (query wasm_dir iface ts request_blob))
       = trace ts @ [ev_open_snapshot (fst (create_query_session iface (db ts))), ev_release]
   \<and> trace (snd (legacy_query wasm_dir iface ts target request_bytes))
       = trace ts @ [ev_open_snapshot (fst (create_query_session iface (db ts))), ev_release]
   \<and> runs (trace (snd (query wasm_dir iface ts request_blob))) = runs (trace ts)
   \<and> runs (trace (snd (legacy_query wasm_dir iface ts target request_bytes)))
       = runs (trace ts)"
proof -
  have t: "trace (scoped_exit (open_snapshot iface ts))
      = trace ts @ [ev_open_snapshot (fst (create_query_session iface (db ts))), ev_release]"
    by (simp add: scoped_exit_effect open_snapshot_effect)
  have t': "trace (scoped_exit ((open_snapshot iface ts)\<lparr>request := r\<rparr>))
      = trace ts @ [ev_open_snapshot (fst (create_query_session iface (db ts))), ev_release]"
    for r
    by (simp add: scoped_exit_effect open_snapshot_effect)
  show ?thesis
    using assms
    by (simp add: retry_loop_empty query_empty legacy_query_empty t t' trace_append)
qed

theorem empty_database_before_guest_witness:
  "head (fill_status (open_snapshot (clock_store 0 (\<lambda>w. False)) idle)) = 0
   \<and> query modules (clock_store 0 (\<lambda>w. False)) idle ([1] @ sub_request 1)
       = (Inl empty_database, scoped_exit (open_snapshot (clock_store 0 (\<lambda>w. False)) idle))
   \<and> trace (snd (query modules (clock_store 0 (\<lambda>w. False)) idle ([1] @ sub_request 1)))
       = [ev_open_snapshot 0, ev_release]
   \<and> runs (trace (snd (query modules (clock_store 0 (\<lambda>w. False)) idle
        ([1] @ sub_request 1)))) = []"
proof -
  have h: "head (fill_status (open_snapshot (clock_store 0 (\<lambda>w. False)) idle)) = 0"
    by (simp add: clock_store_open idle_def)
  have s: "fst (create_query_session (clock_store 0 (\<lambda>w. False)) (db idle)) = 0"
    "trace idle = []"
    by (simp_all add: clock_store_def idle_def)
  note t = empty_database_before_guest [OF h, of "\<lambda>c ts. (Inr True, c, ts)" 0 "()" modules
      "[1] @ sub_request 1" "[]" "[]"]
  have a: "query modules (clock_store 0 (\<lambda>w. False)) idle ([1] @ sub_request 1)
      = (Inl empty_database, scoped_exit (open_snapshot (clock_store 0 (\<lambda>w. False)) idle))"
    using t by blast
  have "trace (snd (query modules (clock_store 0 (\<lambda>w. False)) idle ([1] @ sub_request 1)))
      = trace idle
        @ [ev_open_snapshot (fst (create_query_session (clock_store 0 (\<lambda>w. False)) (db idle))),
           ev_release]"
    using t by blast
  then have b: "trace (snd (query modules (clock_store 0 (\<lambda>w. False)) idle
      ([1] @ sub_request 1))) = [ev_open_snapshot 0, ev_release]"
    by (simp only: s append_Nil)
  have "runs (trace (snd (query modules (clock_store 0 (\<lambda>w. False)) idle
      ([1] @ sub_request 1)))) = runs (trace idle)"
    using t by blast
  then have c: "runs (trace (snd (query modules (clock_store 0 (\<lambda>w. False)) idle
      ([1] @ sub_request 1)))) = []"
    by (simp only: s runs.simps)
  from h a b c show ?thesis
    by blast
qed

section \<open>A request with no sub-request\<close>

lemma query_attempt_zero:
  assumes "read_varuint32 request_blob = Inr (0, rest)"
  shows "query_attempt wasm_dir iface request_blob result ts = (Inr True, varuint32_bytes 0, ts)"
  using assms by (simp add: query_attempt_def push_varuint32_def)

lemma query_zero:
  assumes "read_varuint32 request_blob = Inr (0, rest)"
    and "head (fill_status (open_snapshot iface ts)) \<noteq> 0"
  shows "query wasm_dir iface ts request_blob
     = (Inr (varuint32_bytes 0), scoped_exit (fill_context_data (open_snapshot iface ts)))"
  using assms
  by (simp add: query_def retry_loop.simps [of iface _ 0 "[]" ts] Let_def query_attempt_zero)

text \<open>
  Claim C10, as the code has it. For a request blob whose outer count decodes to 0:
  when the snapshot reports a head other than 0, \<^verbatim>\<open>query\<close> commits in its first attempt
  the reply that is the \<^verbatim>\<open>varuint32\<close> encoding of 0, the single byte 0; when the
  snapshot reports head 0 the request fails with \<^verbatim>\<open>empty_database\<close>. In both cases the
  trace gains one snapshot opened and released and nothing else (no guest run, no fork
  check), and the request does not fail with \<^verbatim>\<open>too_many_forks\<close>.
\<close>

theorem zero_sub_requests:
  assumes "read_varuint32 request_blob = Inr (0, rest)"
  shows "fst (query wasm_dir iface ts request_blob)
       = (if head (fill_status (open_snapshot iface ts)) = 0 then Inl empty_database
          else Inr (varuint32_bytes 0))
   \<and> varuint32_bytes 0 = [0]
   \<and> trace (snd (query wasm_dir iface ts request_blob))
       = trace ts @ [ev_open_snapshot (fst (create_query_session iface (db ts))), ev_release]
   \<and> runs (trace (snd (query wasm_dir iface ts request_blob))) = runs (trace ts)
   \<and> fork_checks (trace (snd (query wasm_dir iface ts request_blob)))
       = fork_checks (trace ts)
   \<and> fst (query wasm_dir iface ts request_blob) \<noteq> Inl too_many_forks"
proof (cases "head (fill_status (open_snapshot iface ts)) = 0")
  case True
  then show ?thesis
    by (simp add: query_empty scoped_exit_effect open_snapshot_effect trace_append
        varuint32_bytes_small)
next
  case False
  with assms show ?thesis
    by (simp add: query_zero scoped_exit_effect open_snapshot_effect
        fill_context_data_effect trace_append varuint32_bytes_small)
qed

theorem zero_sub_requests_witness:
  "read_varuint32 [0] = Inr (0, [])
   \<and> fst (query modules (clock_store 100 (\<lambda>w. True)) idle [0]) = Inr [0]
   \<and> trace (snd (query modules (clock_store 100 (\<lambda>w. True)) idle [0]))
       = [ev_open_snapshot 0, ev_release]"
proof -
  have r: "read_varuint32 [0] = Inr (0, [])"
    by (simp add: read_count)
  have h: "head (fill_status (open_snapshot (clock_store 100 (\<lambda>w. True)) idle)) \<noteq> 0"
    by (simp add: clock_store_open idle_def)
  have s: "fst (create_query_session (clock_store 100 (\<lambda>w. True)) (db idle)) = 0"
    "trace idle = []"
    by (simp_all add: clock_store_def idle_def)
  note t = zero_sub_requests [OF r, of modules "clock_store 100 (\<lambda>w. True)" idle]
  have "fst (query modules (clock_store 100 (\<lambda>w. True)) idle [0])
      = (if head (fill_status (open_snapshot (clock_store 100 (\<lambda>w. True)) idle)) = 0
         then Inl empty_database else Inr (varuint32_bytes 0))"
    using t by blast
  moreover have "varuint32_bytes 0 = [0]"
    using t by blast
  ultimately have a: "fst (query modules (clock_store 100 (\<lambda>w. True)) idle [0]) = Inr [0]"
    using h by simp
  have "trace (snd (query modules (clock_store 100 (\<lambda>w. True)) idle [0]))
      = trace idle
        @ [ev_open_snapshot (fst (create_query_session (clock_store 100 (\<lambda>w. True)) (db idle))),
           ev_release]"
    using t by blast
  then have b: "trace (snd (query modules (clock_store 100 (\<lambda>w. True)) idle [0]))
      = [ev_open_snapshot 0, ev_release]"
    by (simp only: s append_Nil)
  from r a b show ?thesis
    by blast
qed

text \<open>
  The claim as the spec states it fails on an empty database: the request with no
  sub-request does not commit, it fails with \<^verbatim>\<open>empty_database\<close>.
\<close>

theorem zero_sub_requests_counterexample:
  "read_varuint32 [0] = Inr (0, [])
   \<and> fst (query modules (clock_store 0 (\<lambda>w. False)) idle [0]) = Inl empty_database"
  by (simp add: read_count query_empty clock_store_open idle_def)

section \<open>The fork check\<close>

lemma did_fork_value:
  assumes "query_session ts = Some s"
  shows "did_fork iface ts =
     (let (id, w') = get_block_id iface s (head (fill_status ts)) (db ts);
          forked = (id = None \<or> id \<noteq> Some (head_id (fill_status ts)))
      in (Inr forked, ts\<lparr>db := w', trace := trace ts @ [ev_fork_check (Some s) forked]\<rparr>))"
proof -
  have "(checksum_value i \<noteq> checksum_value j) = (i \<noteq> j)" for i j :: abieos_checksum256
    by (cases i; cases j) simp
  with assms show ?thesis
    by (simp add: did_fork_def Let_def split: prod.splits option.splits)
qed

lemma open_snapshot_fill_status:
  "fill_status (fill_context_data (open_snapshot iface ts))
     = fst (get_fill_status iface (fst (create_query_session iface (db ts)))
         (snd (create_query_session iface (db ts))))"
  by (simp add: open_snapshot_def fill_context_data_def Let_def split: prod.splits)

lemma run_query_keeps:
  "fill_status (snd (run_query wasm_dir iface ts short_name)) = fill_status ts
   \<and> query_session (snd (run_query wasm_dir iface ts short_name)) = query_session ts"
  using run_query_effect [of wasm_dir iface ts short_name
      "fst (run_query wasm_dir iface ts short_name)"
      "snd (run_query wasm_dir iface ts short_name)"]
  by auto

lemma negative_checks:
  "list_all (\<lambda>p. ending p = Some False) ps \<Longrightarrow>
     filter snd (fork_checks (attempt_body s ps)) = []"
  by (induction ps)
    (simp_all add: attempt_body_Nil attempt_body_Cons trace_append pass_events_checks)

lemma positive_check_last:
  assumes "list_all (\<lambda>p. ending p = Some False) (butlast ps)"
  shows "(filter snd (fork_checks (attempt_body s ps)) = []) = (\<not> forked_passes ps)"
proof (cases ps rule: rev_cases)
  case Nil
  then show ?thesis
    by (simp add: attempt_body_Nil forked_passes_def)
next
  case (snoc qs p)
  with assms have "filter snd (fork_checks (attempt_body s qs)) = []"
    by (simp add: negative_checks)
  with snoc show ?thesis
    by (cases "ending p")
      (simp_all add: attempt_body_append attempt_body_Cons attempt_body_Nil trace_append
        pass_events_checks forked_passes_def)
qed

lemma query_attempt_checks:
  assumes "query_attempt wasm_dir iface request_blob result ts = (Inr b, result', ts')"
    and "trace ts' = trace ts @ evs"
  shows "(filter snd (fork_checks evs) = []) = b"
proof -
  from query_attempt_passes [OF assms(1)] obtain ps where
    p: "trace ts' = trace ts @ attempt_body (query_session ts) ps"
      "attempt_passes request_blob ps" "forked_passes ps = (\<not> b)"
    by auto
  from p(1) assms(2) have "evs = attempt_body (query_session ts) ps"
    by simp
  moreover from p(2) have "list_all (\<lambda>p. ending p = Some False) (butlast ps)"
    by (simp add: attempt_passes_def)
  ultimately show ?thesis
    using p(3) by (simp add: positive_check_last)
qed

lemma legacy_attempt_check:
  assumes "legacy_attempt wasm_dir iface u ts = (Inr b, u', ts')"
  shows "\<exists>ts1. did_fork iface ts1 = (Inr (\<not> b), ts')"
  using assms
  by (auto simp add: legacy_attempt_def split: prod.splits sum.splits)

text \<open>A call of the retry loop that returns does so from an attempt that returned true.\<close>

lemma retry_loop_returns:
  assumes "retry_loop iface f n c ts = (Inr u, c', ts')"
  shows "\<exists>c0 ts0 ts3.
      f c0 (fill_context_data (open_snapshot iface ts0)) = (Inr True, c', ts3)
      \<and> ts' = scoped_exit ts3"
  using assms
proof (induction k \<equiv> "4 - n" arbitrary: n c ts)
  case 0
  from "0.prems" show ?case
  proof (cases rule: retry_loop_cases)
    case (commit ts3)
    then show ?thesis
      by blast
  next
    case (retry c1 ts3)
    with 0 show ?thesis
      by simp
  qed simp_all
next
  case (Suc k)
  from Suc.prems show ?case
  proof (cases rule: retry_loop_cases)
    case (commit ts3)
    then show ?thesis
      by blast
  next
    case (retry c1 ts3)
    have "k = 4 - (n + 1)"
      using Suc.hyps(2) by simp
    from Suc.hyps(1) [OF this retry(4)] show ?thesis .
  qed simp_all
qed

text \<open>
  Claim C4, as the code has it. \<^verbatim>\<open>did_fork\<close> asks the session for the id of the block
  at the captured head and returns true exactly when there is no id or the id differs
  from the captured \<^verbatim>\<open>head_id\<close>. The head and the id it compares are those
  \<^verbatim>\<open>get_fill_status\<close> returned when the attempt opened its snapshot: a guest run
  changes neither them nor the session. When it returns true the attempt returns
  false and what it staged is not emitted: the lambda of \<^verbatim>\<open>query\<close> returns true only
  if every fork check of the attempt was negative and false if one was positive, the
  lambda of \<^verbatim>\<open>legacy_query\<close> returns the negation of the check, the retry loop
  returns only from an attempt in which the lambda returned true and, after one in
  which it returned false, starts the next attempt or, if that was the fourth, raises
  \<^verbatim>\<open>too_many_forks\<close>, and what an attempt of \<^verbatim>\<open>query\<close> stages does not depend on
  what was staged before it. The reply buffer,
  however, is not reset between attempts. A reply of \<^verbatim>\<open>legacy_query\<close> follows fewer
  than 4 attempts that each ended in a positive fork check and one attempt that ended
  in a negative one, and it is the bytes of the last \<^verbatim>\<open>set_output_data\<close> call of all
  these attempts, the forked ones included, or the old content of the buffer if there
  was no call. A reply of \<^verbatim>\<open>query\<close> is staged by its last attempt alone, but from a
  buffer that starts the attempt with the bytes of the last call of the forked
  attempts before it.
\<close>

theorem did_fork_iff:
  assumes "query_session ts = Some s"
  shows "fst (did_fork iface ts)
       = Inr (fst (get_block_id iface s (head (fill_status ts)) (db ts)) = None
              \<or> fst (get_block_id iface s (head (fill_status ts)) (db ts))
                  \<noteq> Some (head_id (fill_status ts)))
   \<and> fill_status (fill_context_data (open_snapshot iface ts0))
       = fst (get_fill_status iface (fst (create_query_session iface (db ts0)))
           (snd (create_query_session iface (db ts0))))
   \<and> fill_status (snd (run_query wasm_dir iface ts short_name)) = fill_status ts
   \<and> query_session (snd (run_query wasm_dir iface ts short_name)) = query_session ts
   \<and> (query_attempt wasm_dir iface request_blob result ts = (Inr b, result', ts')
       \<and> trace ts' = trace ts @ evs \<longrightarrow>
         (filter snd (fork_checks evs) = []) = b
         \<and> query_attempt wasm_dir iface request_blob result0 ts = (Inr b, result', ts'))
   \<and> (legacy_attempt wasm_dir iface u ts = (Inr b, u', ts') \<longrightarrow>
         (\<exists>ts1. did_fork iface ts1 = (Inr (\<not> b), ts')))
   \<and> (retry_loop iface f num_tries c ts = (Inr v, c', tsf) \<longrightarrow>
         (\<exists>c0 ts1 ts3. f c0 (fill_context_data (open_snapshot iface ts1)) = (Inr True, c', ts3)
            \<and> tsf = scoped_exit ts3))
   \<and> (head (fill_status (open_snapshot iface tsr)) \<noteq> 0
       \<and> f c (fill_context_data (open_snapshot iface tsr)) = (Inr False, c1, tsn) \<longrightarrow>
         retry_loop iface f num_tries c tsr =
           (if 4 \<le> num_tries + 1 then (Inl too_many_forks, c1, scoped_exit tsn)
            else retry_loop iface f (num_tries + 1) c1 (scoped_exit tsn)))
   \<and> (legacy_query wasm_dir iface tsa target request_bytes = (Inr r, tsl) \<longrightarrow>
         (\<exists>atts s outs.
            trace tsl = trace tsa @ attempts_trace atts
              @ attempt_trace s
                  [legacy_pass (bytes_to_bin target @ bytes_to_bin request_bytes) outs
                     (Some False)]
          \<and> length atts < 4
          \<and> list_all (\<lambda>(s, ps).
                map served ps
                  = [(legacy_n, bytes_to_bin target @ bytes_to_bin request_bytes)]
                \<and> map ending ps = [Some True]) atts
          \<and> r = last (reply tsa # concat (map written (concat (map snd atts))) @ outs)))
   \<and> (query wasm_dir iface tsa request_blob = (Inr r, tsq) \<longrightarrow>
         (\<exists>atts s ps n rest.
            trace tsq = trace tsa @ attempts_trace atts @ attempt_trace s ps
          \<and> length atts < 4
          \<and> list_all (\<lambda>(s, ps). attempt_passes request_blob ps \<and> forked_passes ps) atts
          \<and> attempt_passes request_blob ps \<and> committed_passes request_blob ps
          \<and> read_varuint32 request_blob = Inr (n, rest)
          \<and> r = reply_encoding n
                (blobs_from (last (reply tsa # concat (map written (concat (map snd atts)))))
                   (map written ps))))"
proof -
  have "fst (did_fork iface ts)
       = Inr (fst (get_block_id iface s (head (fill_status ts)) (db ts)) = None
              \<or> fst (get_block_id iface s (head (fill_status ts)) (db ts))
                  \<noteq> Some (head_id (fill_status ts)))"
    by (simp add: did_fork_value [OF assms] Let_def split: prod.splits)
  moreover note open_snapshot_fill_status [of iface ts0]
    run_query_keeps [of wasm_dir iface ts short_name]
  moreover have "(filter snd (fork_checks evs) = []) = b
      \<and> query_attempt wasm_dir iface request_blob result0 ts = (Inr b, result', ts')"
    if "query_attempt wasm_dir iface request_blob result ts = (Inr b, result', ts')"
      and "trace ts' = trace ts @ evs"
    using query_attempt_checks [OF that] query_attempt_discards [OF that(1)] by simp
  moreover have "\<exists>ts1. did_fork iface ts1 = (Inr (\<not> b), ts')"
    if "legacy_attempt wasm_dir iface u ts = (Inr b, u', ts')"
    using that by (rule legacy_attempt_check)
  moreover have "\<exists>c0 ts1 ts3.
      f c0 (fill_context_data (open_snapshot iface ts1)) = (Inr True, c', ts3)
      \<and> tsf = scoped_exit ts3"
    if "retry_loop iface f num_tries c ts = (Inr v, c', tsf)"
    using that by (rule retry_loop_returns)
  moreover have "retry_loop iface f num_tries c tsr =
           (if 4 \<le> num_tries + 1 then (Inl too_many_forks, c1, scoped_exit tsn)
            else retry_loop iface f (num_tries + 1) c1 (scoped_exit tsn))"
    if "head (fill_status (open_snapshot iface tsr)) \<noteq> 0"
      and "f c (fill_context_data (open_snapshot iface tsr)) = (Inr False, c1, tsn)"
    using that by (rule retry_loop_false)
  moreover have "\<exists>atts s outs.
            trace tsl = trace tsa @ attempts_trace atts
              @ attempt_trace s
                  [legacy_pass (bytes_to_bin target @ bytes_to_bin request_bytes) outs
                     (Some False)]
          \<and> length atts < 4
          \<and> list_all (\<lambda>(s, ps).
                map served ps
                  = [(legacy_n, bytes_to_bin target @ bytes_to_bin request_bytes)]
                \<and> map ending ps = [Some True]) atts
          \<and> r = last (reply tsa # concat (map written (concat (map snd atts))) @ outs)"
    if "legacy_query wasm_dir iface tsa target request_bytes = (Inr r, tsl)"
    using that refl by (rule legacy_query_commit)
  moreover have "\<exists>atts s ps n rest.
            trace tsq = trace tsa @ attempts_trace atts @ attempt_trace s ps
          \<and> length atts < 4
          \<and> list_all (\<lambda>(s, ps). attempt_passes request_blob ps \<and> forked_passes ps) atts
          \<and> attempt_passes request_blob ps \<and> committed_passes request_blob ps
          \<and> read_varuint32 request_blob = Inr (n, rest)
          \<and> r = reply_encoding n
                (blobs_from (last (reply tsa # concat (map written (concat (map snd atts)))))
                   (map written ps))"
    if q: "query wasm_dir iface tsa request_blob = (Inr r, tsq)"
  proof -
    from query_commit [OF q] obtain ts0 ts3 atts ps n rest where
      p: "trace tsq = trace tsa @ attempts_trace atts
          @ attempt_trace (fst (create_query_session iface (db ts0))) ps"
        "length atts < 4"
        "list_all (\<lambda>(s, ps). attempt_passes request_blob ps \<and> forked_passes ps) atts"
        "attempt_passes request_blob ps" "committed_passes request_blob ps"
        "read_varuint32 request_blob = Inr (n, rest)"
        "reply ts0 = last (reply tsa # concat (map written (concat (map snd atts))))"
        "r = reply_encoding n (blobs_from (reply ts0) (map written ps))"
        "query_attempt wasm_dir iface request_blob []
           (fill_context_data (open_snapshot iface ts0)) = (Inr True, r, ts3)"
      by blast
    from p(8) have "r = reply_encoding n
        (blobs_from (last (reply tsa # concat (map written (concat (map snd atts)))))
           (map written ps))"
      unfolding p(7) .
    with p(1-6) show ?thesis
      by (intro exI [of _ atts] exI [of _ "fst (create_query_session iface (db ts0))"]
          exI [of _ ps] exI [of _ n] exI [of _ rest] conjI)
  qed
  ultimately show ?thesis
    by blast
qed

theorem did_fork_iff_witness:
  "query_session (first_attempt (\<lambda>w. True)) = Some 0
   \<and> head_id (fill_status (first_attempt (\<lambda>w. True))) = id_a
   \<and> fst (get_block_id (clock_store 100 (\<lambda>w. True)) 0
        (head (fill_status (first_attempt (\<lambda>w. True)))) (db (first_attempt (\<lambda>w. True))))
       = Some id_b
   \<and> fst (did_fork (clock_store 100 (\<lambda>w. True)) (first_attempt (\<lambda>w. True))) = Inr True
   \<and> fst (query_attempt modules (clock_store 100 (\<lambda>w. True)) ([1] @ sub_request 1) []
        (first_attempt (\<lambda>w. True))) = Inr False
   \<and> filter snd (fork_checks
        [ev_run_query (Some 0) \<lparr>name_value = 1\<rparr> [], ev_set_output [7],
         ev_fork_check (Some (0::nat)) True]) \<noteq> []"
proof -
  let ?st = "clock_store 100 (\<lambda>w. True)"
  let ?T = "first_attempt (\<lambda>w. True)"
  let ?X = "query_attempt modules ?st ([1] @ sub_request 1) [] ?T"
  let ?evs = "[ev_run_query (Some 0) \<lparr>name_value = 1\<rparr> [], ev_set_output [7],
      ev_fork_check (Some (0::nat)) True]"
  have q: "query_session ?T = Some 0"
    and h: "head_id (fill_status ?T) = id_a"
    by (simp_all add: first_attempt_def example_steps idle_def)
  have g: "fst (get_block_id ?st 0 (head (fill_status ?T)) (db ?T)) = Some id_b"
    by (simp add: clock_store_def)
  have x: "fst ?X = Inr False"
    and t: "trace (snd (snd ?X)) = trace ?T @ ?evs"
    by (simp_all add: first_attempt_def example_steps idle_def)
  have x': "?X = (Inr False, fst (snd ?X), snd (snd ?X))"
    using x by (metis prod.collapse)
  note w = did_fork_iff [OF q, where iface = ?st and wasm_dir = modules
      and request_blob = "[1] @ sub_request 1" and result = "[]" and b = False
      and result' = "fst (snd ?X)" and ts' = "snd (snd ?X)" and evs = ?evs]
  note d0 = w [THEN conjunct1]
  have "id_b \<noteq> id_a"
    by (simp add: id_a_def id_b_def)
  then have d: "fst (did_fork ?st ?T) = Inr True"
    unfolding d0 g h by simp
  note c0 = w [THEN conjunct2, THEN conjunct2, THEN conjunct2, THEN conjunct2,
      THEN conjunct1, rule_format, OF conjI [OF x' t], THEN conjunct1]
  from c0 have c: "filter snd (fork_checks ?evs) \<noteq> []"
    by blast
  from q h g d x c show ?thesis
    by (intro conjI)
qed

text \<open>
  The claim as the spec states it fails for \<^verbatim>\<open>legacy_query\<close> when the guest writes in
  an attempt that ends in a detected fork and not in the next. The guest of the first
  attempt, under the snapshot 0, writes the byte 7 and \<^verbatim>\<open>did_fork\<close> returns true; the
  guest of the second attempt, under the snapshot 3, writes nothing and \<^verbatim>\<open>did_fork\<close>
  returns false; the reply is the byte 7.
\<close>

theorem did_fork_iff_counterexample:
  "fst (legacy_query fickle (clock_store 100 (\<lambda>w. w < 4)) idle [] []) = Inr [7]
   \<and> trace (snd (legacy_query fickle (clock_store 100 (\<lambda>w. w < 4)) idle [] []))
     = [ev_open_snapshot 0, ev_run_query (Some 0) legacy_n [0, 0], ev_set_output [7],
        ev_fork_check (Some 0) True, ev_release,
        ev_open_snapshot 3, ev_run_query (Some 3) legacy_n [0, 0],
        ev_fork_check (Some 3) False, ev_release]"
  by (simp add: legacy_steps idle_def)

section \<open>A fork restarts the whole request\<close>

text \<open>
  Claim C2, as the code has it. Every call of \<^verbatim>\<open>query\<close> is a sequence of fewer than
  4 whole attempts that each ended in a detected fork, followed by one last attempt.
  Every attempt opens a snapshot of its own and serves the sub-requests of the request
  from the first, in order and with none left out, each by a run of the guest of its
  short name on its payload under the snapshot of the attempt; every pass but the last
  of an attempt ended in a negative fork check. An attempt that ends in a detected
  fork is thus followed by another attempt, unless it is the last: then it is the
  fourth and the call raises \<^verbatim>\<open>too_many_forks\<close>. The call returns a reply only when
  the last attempt served all sub-requests with every fork check negative; otherwise
  it raises an error and emits nothing. The reply is what this one attempt staged,
  starting from an empty staging vector (an attempt stages the same whatever was
  staged before): the count and, for each sub-request, the reply buffer after its run.
  The buffer is not reset when an attempt starts: it holds the bytes of the last
  \<^verbatim>\<open>set_output_data\<close> call of the attempts before, so the blob of a run that made no
  call can come from a discarded attempt under another snapshot. When every run of
  the last attempt made a call, every blob is the bytes of the last call of its own
  run, under the one snapshot of that attempt.
\<close>

theorem query_restarts:
  assumes "query wasm_dir iface ts request_blob = (res, ts')"
  shows "(\<exists>ts0 atts s ps buf.
       trace ts' = trace ts @ attempts_trace atts @ attempt_trace s ps
     \<and> length atts < 4
     \<and> list_all (\<lambda>(s, ps). attempt_passes request_blob ps \<and> forked_passes ps) atts
     \<and> attempt_passes request_blob ps
     \<and> (forked_passes ps \<longrightarrow> res = Inl too_many_forks \<and> length atts = 3)
     \<and> trace ts0 = trace ts @ attempts_trace atts
     \<and> s = fst (create_query_session iface (db ts0))
     \<and> buf = last (reply ts # concat (map written (concat (map snd atts))))
     \<and> (\<forall>r. res = Inr r \<longrightarrow>
          committed_passes request_blob ps
          \<and> (\<exists>ts3. query_attempt wasm_dir iface request_blob []
                  (fill_context_data (open_snapshot iface ts0)) = (Inr True, r, ts3))
          \<and> (\<exists>n rest. read_varuint32 request_blob = Inr (n, rest)
                \<and> r = reply_encoding n (blobs_from buf (map written ps))
                \<and> (list_all (\<lambda>p. written p \<noteq> []) ps \<longrightarrow>
                     r = reply_encoding n (map (\<lambda>p. last (written p)) ps)))))
   \<and> (query_attempt wasm_dir iface request_blob staged ts1 = (Inr b, result, ts2) \<longrightarrow>
        query_attempt wasm_dir iface request_blob [] ts1 = (Inr b, result, ts2))"
proof -
  from query_shape [OF assms] obtain ts0 atts ps where
    p: "trace ts0 = trace ts @ attempts_trace atts"
      "reply ts0 = last (reply ts # concat (map written (concat (map snd atts))))"
      "trace ts' = trace ts @ attempts_trace atts
           @ attempt_trace (fst (create_query_session iface (db ts0))) ps"
      "length atts < 4"
      "list_all (\<lambda>(s, ps). attempt_passes request_blob ps \<and> forked_passes ps) atts"
      "attempt_passes request_blob ps"
      "forked_passes ps \<longrightarrow> res = Inl too_many_forks \<and> length atts = 3"
    and c: "\<forall>r. res = Inr r \<longrightarrow>
           committed_passes request_blob ps
           \<and> (\<exists>n rest. read_varuint32 request_blob = Inr (n, rest)
                 \<and> r = reply_encoding n (blobs_from (reply ts0) (map written ps)))
           \<and> (\<exists>ts3. query_attempt wasm_dir iface request_blob []
                   (fill_context_data (open_snapshot iface ts0)) = (Inr True, r, ts3)
                 \<and> ts' = scoped_exit ts3)"
    by blast
  let ?buf = "last (reply ts # concat (map written (concat (map snd atts))))"
  have commit: "committed_passes request_blob ps
      \<and> (\<exists>ts3. query_attempt wasm_dir iface request_blob []
              (fill_context_data (open_snapshot iface ts0)) = (Inr True, r, ts3))
      \<and> (\<exists>n rest. read_varuint32 request_blob = Inr (n, rest)
            \<and> r = reply_encoding n (blobs_from ?buf (map written ps))
            \<and> (list_all (\<lambda>p. written p \<noteq> []) ps \<longrightarrow>
                 r = reply_encoding n (map (\<lambda>p. last (written p)) ps)))"
    if "res = Inr r" for r
  proof -
    from c [rule_format, OF that] obtain n rest ts3 where
      d: "committed_passes request_blob ps" "read_varuint32 request_blob = Inr (n, rest)"
        "r = reply_encoding n (blobs_from (reply ts0) (map written ps))"
        "query_attempt wasm_dir iface request_blob []
           (fill_context_data (open_snapshot iface ts0)) = (Inr True, r, ts3)"
      by blast
    have e: "r = reply_encoding n (blobs_from ?buf (map written ps))"
      using d(3) unfolding p(2) .
    have w: "list_all (\<lambda>p. written p \<noteq> []) ps \<longrightarrow>
        r = reply_encoding n (map (\<lambda>p. last (written p)) ps)"
    proof
      assume "list_all (\<lambda>p. written p \<noteq> []) ps"
      then have "list_all (\<lambda>outs. outs \<noteq> []) (map written ps)"
        by (simp add: list.pred_map comp_def)
      then have "blobs_from ?buf (map written ps) = map last (map written ps)"
        by (rule blobs_from_written)
      with e show "r = reply_encoding n (map (\<lambda>p. last (written p)) ps)"
        by (simp add: comp_def del: last.simps)
    qed
    from d(4) have x: "\<exists>ts3. query_attempt wasm_dir iface request_blob []
        (fill_context_data (open_snapshot iface ts0)) = (Inr True, r, ts3)"
      by (rule exI)
    from d(2) e w have "\<exists>n rest. read_varuint32 request_blob = Inr (n, rest)
        \<and> r = reply_encoding n (blobs_from ?buf (map written ps))
        \<and> (list_all (\<lambda>p. written p \<noteq> []) ps \<longrightarrow>
             r = reply_encoding n (map (\<lambda>p. last (written p)) ps))"
      by (intro exI [of _ n] exI [of _ rest] conjI)
    with d(1) x show ?thesis
      by (intro conjI)
  qed
  have c2: "\<forall>r. res = Inr r \<longrightarrow>
      committed_passes request_blob ps
      \<and> (\<exists>ts3. query_attempt wasm_dir iface request_blob []
              (fill_context_data (open_snapshot iface ts0)) = (Inr True, r, ts3))
      \<and> (\<exists>n rest. read_varuint32 request_blob = Inr (n, rest)
            \<and> r = reply_encoding n (blobs_from ?buf (map written ps))
            \<and> (list_all (\<lambda>p. written p \<noteq> []) ps \<longrightarrow>
                 r = reply_encoding n (map (\<lambda>p. last (written p)) ps)))"
    by (intro allI impI) (rule commit)
  from p(3,4,5,6,7) p(1) c2 have ex: "\<exists>ts0 atts s ps buf.
       trace ts' = trace ts @ attempts_trace atts @ attempt_trace s ps
     \<and> length atts < 4
     \<and> list_all (\<lambda>(s, ps). attempt_passes request_blob ps \<and> forked_passes ps) atts
     \<and> attempt_passes request_blob ps
     \<and> (forked_passes ps \<longrightarrow> res = Inl too_many_forks \<and> length atts = 3)
     \<and> trace ts0 = trace ts @ attempts_trace atts
     \<and> s = fst (create_query_session iface (db ts0))
     \<and> buf = last (reply ts # concat (map written (concat (map snd atts))))
     \<and> (\<forall>r. res = Inr r \<longrightarrow>
          committed_passes request_blob ps
          \<and> (\<exists>ts3. query_attempt wasm_dir iface request_blob []
                  (fill_context_data (open_snapshot iface ts0)) = (Inr True, r, ts3))
          \<and> (\<exists>n rest. read_varuint32 request_blob = Inr (n, rest)
                \<and> r = reply_encoding n (blobs_from buf (map written ps))
                \<and> (list_all (\<lambda>p. written p \<noteq> []) ps \<longrightarrow>
                     r = reply_encoding n (map (\<lambda>p. last (written p)) ps))))"
    by (intro exI [of _ ts0] exI [of _ atts]
        exI [of _ "fst (create_query_session iface (db ts0))"] exI [of _ ps]
        exI [of _ ?buf] conjI refl)
  have "query_attempt wasm_dir iface request_blob staged ts1 = (Inr b, result, ts2) \<longrightarrow>
      query_attempt wasm_dir iface request_blob [] ts1 = (Inr b, result, ts2)"
    using query_attempt_discards by blast
  with ex show ?thesis
    by (rule conjI)
qed

text \<open>
  A request of two sub-requests on a store that reports a fork until time 4: the first
  attempt, under the snapshot 0, ends in a fork after its first pass; the second, under
  the snapshot 3, serves both sub-requests and its reply is returned.
\<close>

lemma forked_then_committed:
  "fst (query modules (clock_store 100 (\<lambda>w. w < 4)) idle ([2] @ sub_request 1 @ sub_request 3))
     = Inr [2, 1, 7, 2, 8, 9]"
  "trace (snd (query modules (clock_store 100 (\<lambda>w. w < 4)) idle
     ([2] @ sub_request 1 @ sub_request 3)))
     = [ev_open_snapshot 0, ev_run_query (Some 0) \<lparr>name_value = 1\<rparr> [], ev_set_output [7],
        ev_fork_check (Some 0) True, ev_release,
        ev_open_snapshot 3, ev_run_query (Some 3) \<lparr>name_value = 1\<rparr> [], ev_set_output [7],
        ev_fork_check (Some 3) False, ev_run_query (Some 3) \<lparr>name_value = 3\<rparr> [],
        ev_set_output [8, 9], ev_fork_check (Some 3) False, ev_release]"
  by (simp_all add: example_steps idle_def)

theorem query_restarts_witness:
  "fst (query modules (clock_store 100 (\<lambda>w. w < 4)) idle ([2] @ sub_request 1 @ sub_request 3))
     = Inr [2, 1, 7, 2, 8, 9]
   \<and> (\<exists>atts s ps n rest.
        [ev_open_snapshot 0, ev_run_query (Some 0) \<lparr>name_value = 1\<rparr> [], ev_set_output [7],
         ev_fork_check (Some 0) True, ev_release,
         ev_open_snapshot 3, ev_run_query (Some 3) \<lparr>name_value = 1\<rparr> [], ev_set_output [7],
         ev_fork_check (Some 3) False, ev_run_query (Some 3) \<lparr>name_value = 3\<rparr> [],
         ev_set_output [8, 9], ev_fork_check (Some 3) False, ev_release]
          = trace idle @ attempts_trace atts @ attempt_trace s ps
      \<and> length atts < 4
      \<and> list_all (\<lambda>(s, ps). attempt_passes ([2] @ sub_request 1 @ sub_request 3) ps
            \<and> forked_passes ps) atts
      \<and> attempt_passes ([2] @ sub_request 1 @ sub_request 3) ps
      \<and> committed_passes ([2] @ sub_request 1 @ sub_request 3) ps
      \<and> read_varuint32 ([2] @ sub_request 1 @ sub_request 3) = Inr (n, rest)
      \<and> [2, 1, 7, 2, 8, 9] = reply_encoding n
           (blobs_from (last (reply idle # concat (map written (concat (map snd atts)))))
              (map written ps)))"
proof -
  let ?B = "[2] @ sub_request 1 @ sub_request 3"
  let ?X = "query modules (clock_store 100 (\<lambda>w. w < 4)) idle ?B"
  have x: "?X = (fst ?X, snd ?X)"
    by simp
  from query_restarts [OF x, THEN conjunct1] obtain ts0 atts s ps buf where
    p: "trace (snd ?X) = trace idle @ attempts_trace atts @ attempt_trace s ps"
      "length atts < 4"
      "list_all (\<lambda>(s, ps). attempt_passes ?B ps \<and> forked_passes ps) atts"
      "attempt_passes ?B ps"
      "buf = last (reply idle # concat (map written (concat (map snd atts))))"
    and c: "\<forall>r. fst ?X = Inr r \<longrightarrow>
          committed_passes ?B ps
          \<and> (\<exists>ts3. query_attempt modules (clock_store 100 (\<lambda>w. w < 4)) ?B []
                  (fill_context_data (open_snapshot (clock_store 100 (\<lambda>w. w < 4)) ts0))
                = (Inr True, r, ts3))
          \<and> (\<exists>n rest. read_varuint32 ?B = Inr (n, rest)
                \<and> r = reply_encoding n (blobs_from buf (map written ps))
                \<and> (list_all (\<lambda>p. written p \<noteq> []) ps \<longrightarrow>
                     r = reply_encoding n (map (\<lambda>p. last (written p)) ps)))"
    by blast
  from c [rule_format, OF forked_then_committed(1)] obtain n rest where
    d: "committed_passes ?B ps" "read_varuint32 ?B = Inr (n, rest)"
      "[2, 1, 7, 2, 8, 9] = reply_encoding n (blobs_from buf (map written ps))"
    by blast
  from p(1) have t: "[ev_open_snapshot 0, ev_run_query (Some 0) \<lparr>name_value = 1\<rparr> [],
         ev_set_output [7], ev_fork_check (Some 0) True, ev_release,
         ev_open_snapshot 3, ev_run_query (Some 3) \<lparr>name_value = 1\<rparr> [], ev_set_output [7],
         ev_fork_check (Some 3) False, ev_run_query (Some 3) \<lparr>name_value = 3\<rparr> [],
         ev_set_output [8, 9], ev_fork_check (Some 3) False, ev_release]
          = trace idle @ attempts_trace atts @ attempt_trace s ps"
    unfolding forked_then_committed(2) .
  from d(3) have e: "[2, 1, 7, 2, 8, 9] = reply_encoding n
      (blobs_from (last (reply idle # concat (map written (concat (map snd atts)))))
         (map written ps))"
    unfolding p(5) .
  from t p(2,3,4) d(1,2) e have "\<exists>atts s ps n rest.
        [ev_open_snapshot 0, ev_run_query (Some 0) \<lparr>name_value = 1\<rparr> [], ev_set_output [7],
         ev_fork_check (Some 0) True, ev_release,
         ev_open_snapshot 3, ev_run_query (Some 3) \<lparr>name_value = 1\<rparr> [], ev_set_output [7],
         ev_fork_check (Some 3) False, ev_run_query (Some 3) \<lparr>name_value = 3\<rparr> [],
         ev_set_output [8, 9], ev_fork_check (Some 3) False, ev_release]
          = trace idle @ attempts_trace atts @ attempt_trace s ps
      \<and> length atts < 4
      \<and> list_all (\<lambda>(s, ps). attempt_passes ?B ps \<and> forked_passes ps) atts
      \<and> attempt_passes ?B ps
      \<and> committed_passes ?B ps
      \<and> read_varuint32 ?B = Inr (n, rest)
      \<and> [2, 1, 7, 2, 8, 9] = reply_encoding n
           (blobs_from (last (reply idle # concat (map written (concat (map snd atts)))))
              (map written ps))"
    by (intro exI [of _ atts] exI [of _ s] exI [of _ ps] exI [of _ n] exI [of _ rest] conjI)
  with forked_then_committed(1) show ?thesis
    by (rule conjI)
qed

text \<open>
  The claim as the spec states it fails when a guest writes under a snapshot that is
  then found forked, and not under the next. The first attempt, under the snapshot 0,
  writes the byte 7 and is discarded; in the second, under the snapshot 3, the guest
  writes nothing, no fork is found, and the reply that is returned carries the byte 7
  for the sub-request: a sub-reply produced under the snapshot of a discarded attempt.
\<close>

theorem query_restarts_counterexample:
  "fst (query fickle (clock_store 100 (\<lambda>w. w < 4)) idle ([1] @ sub_request 1)) = Inr [1, 1, 7]
   \<and> trace (snd (query fickle (clock_store 100 (\<lambda>w. w < 4)) idle ([1] @ sub_request 1)))
     = [ev_open_snapshot 0, ev_run_query (Some 0) \<lparr>name_value = 1\<rparr> [], ev_set_output [7],
        ev_fork_check (Some 0) True, ev_release,
        ev_open_snapshot 3, ev_run_query (Some 3) \<lparr>name_value = 1\<rparr> [],
        ev_fork_check (Some 3) False, ev_release]"
  by (simp add: example_steps idle_def)

section \<open>The encoding of a reply\<close>

lemma set_output_data_value:
  "set_output_data begin end ts =
     (if begin > end then (Inl bad_memory, ts)
      else (Inr (), ts\<lparr>reply := read_bytes (wa ts) begin end,
                       trace := trace ts @ [ev_set_output (read_bytes (wa ts) begin end)]\<rparr>))"
  by (simp add: set_output_data_def check_bounds_def Let_def)

lemma committed_sub_requests:
  assumes "attempt_passes request_blob ps" and "committed_passes request_blob ps"
    and "read_varuint32 request_blob = Inr (n, request_bin)"
  shows "length ps = unat n"
    and "decode_sub_requests (unat n) request_bin = Some (map served ps)"
    and "list_all (\<lambda>p. ending p = Some False) ps"
  using assms by (simp_all add: attempt_passes_def committed_passes_def)

text \<open>
  Claim C8, as the code has it. A reply that \<^verbatim>\<open>query\<close> returns comes from its last
  attempt, which made one pass for each of the \<^verbatim>\<open>n\<close> sub-requests of the request, in
  their order: pass \<^verbatim>\<open>i\<close> ran the guest named by sub-request \<^verbatim>\<open>i\<close> on the payload of
  sub-request \<^verbatim>\<open>i\<close> and ended in a negative fork check. The reply is the \<^verbatim>\<open>varuint32\<close>
  count \<^verbatim>\<open>n\<close> and then, for each sub-request in order, a \<^verbatim>\<open>varuint32\<close> length and a
  blob. Blob \<^verbatim>\<open>i\<close> is the content of the reply buffer after the run for sub-request
  \<^verbatim>\<open>i\<close>: the bytes of the last \<^verbatim>\<open>set_output_data\<close> call of that run or, for a run that
  made no such call, the blob before it, and for the first sub-request what the buffer
  held when the attempt began (the bytes of the last call of an earlier, discarded
  attempt, or what the buffer held before the request). \<^verbatim>\<open>set_output_data\<close> replaces
  the buffer by the bytes of the guest memory from \<^verbatim>\<open>begin\<close> to \<^verbatim>\<open>end\<close>.
\<close>

theorem reply_blobs:
  assumes "fst (query wasm_dir iface ts request_blob) = Inr r"
  shows "(\<exists>atts s ps n request_bin buf blobs.
       trace (snd (query wasm_dir iface ts request_blob))
         = trace ts @ attempts_trace atts @ attempt_trace s ps
     \<and> read_varuint32 request_blob = Inr (n, request_bin)
     \<and> length ps = unat n
     \<and> decode_sub_requests (unat n) request_bin = Some (map served ps)
     \<and> list_all (\<lambda>p. ending p = Some False) ps
     \<and> buf = last (reply ts # concat (map written (concat (map snd atts))))
     \<and> blobs = blobs_from buf (map written ps)
     \<and> length blobs = unat n
     \<and> (\<forall>i<unat n. blobs ! i =
           (if written (ps ! i) \<noteq> [] then last (written (ps ! i))
            else if i = 0 then buf else blobs ! (i - 1)))
     \<and> r = varuint32_bytes n
           @ concat (map (\<lambda>b. varuint32_bytes (of_nat (length b)) @ b) blobs))
   \<and> set_output_data begin end ts1 =
       (if begin > end then (Inl bad_memory, ts1)
        else (Inr (), ts1\<lparr>reply := read_bytes (wa ts1) begin end,
                trace := trace ts1 @ [ev_set_output (read_bytes (wa ts1) begin end)]\<rparr>))"
proof -
  obtain ts' where q: "query wasm_dir iface ts request_blob = (Inr r, ts')"
    using assms by (cases "query wasm_dir iface ts request_blob") simp
  from query_commit [OF q] obtain ts0 ts3 atts ps n request_bin where
    p: "trace ts' = trace ts @ attempts_trace atts
          @ attempt_trace (fst (create_query_session iface (db ts0))) ps"
      "reply ts0 = last (reply ts # concat (map written (concat (map snd atts))))"
      "attempt_passes request_blob ps" "committed_passes request_blob ps"
      "read_varuint32 request_blob = Inr (n, request_bin)"
      "r = reply_encoding n (blobs_from (reply ts0) (map written ps))"
      "query_attempt wasm_dir iface request_blob []
         (fill_context_data (open_snapshot iface ts0)) = (Inr True, r, ts3)"
    by blast
  let ?buf = "last (reply ts # concat (map written (concat (map snd atts))))"
  let ?blobs = "blobs_from ?buf (map written ps)"
  note s = committed_sub_requests [OF p(3,4,5)]
  have t: "trace (snd (query wasm_dir iface ts request_blob))
      = trace ts @ attempts_trace atts
          @ attempt_trace (fst (create_query_session iface (db ts0))) ps"
    unfolding q using p(1) by simp
  have l: "length ?blobs = unat n"
    using s(1) by (simp add: blobs_from_length del: last.simps)
  have i: "\<forall>i<unat n. ?blobs ! i =
      (if written (ps ! i) \<noteq> [] then last (written (ps ! i))
       else if i = 0 then ?buf else ?blobs ! (i - 1))"
  proof (intro allI impI)
    fix i
    assume "i < unat n"
    with s(1) have "i < length (map written ps)"
      by simp
    from blobs_from_nth [OF this, of ?buf] \<open>i < unat n\<close> s(1)
    show "?blobs ! i =
      (if written (ps ! i) \<noteq> [] then last (written (ps ! i))
       else if i = 0 then ?buf else ?blobs ! (i - 1))"
      by (simp del: last.simps)
  qed
  have r: "r = varuint32_bytes n
      @ concat (map (\<lambda>b. varuint32_bytes (of_nat (length b)) @ b) ?blobs)"
    using p(6) unfolding p(2) by (simp add: reply_encoding_def reply_frame_def [abs_def]
        del: last.simps)
  from t p(5) s l i r have "\<exists>atts s ps n request_bin buf blobs.
       trace (snd (query wasm_dir iface ts request_blob))
         = trace ts @ attempts_trace atts @ attempt_trace s ps
     \<and> read_varuint32 request_blob = Inr (n, request_bin)
     \<and> length ps = unat n
     \<and> decode_sub_requests (unat n) request_bin = Some (map served ps)
     \<and> list_all (\<lambda>p. ending p = Some False) ps
     \<and> buf = last (reply ts # concat (map written (concat (map snd atts))))
     \<and> blobs = blobs_from buf (map written ps)
     \<and> length blobs = unat n
     \<and> (\<forall>i<unat n. blobs ! i =
           (if written (ps ! i) \<noteq> [] then last (written (ps ! i))
            else if i = 0 then buf else blobs ! (i - 1)))
     \<and> r = varuint32_bytes n
           @ concat (map (\<lambda>b. varuint32_bytes (of_nat (length b)) @ b) blobs)"
    by (intro exI [of _ atts] exI [of _ "fst (create_query_session iface (db ts0))"]
        exI [of _ ps] exI [of _ n] exI [of _ request_bin] exI [of _ ?buf]
        exI [of _ ?blobs] conjI refl)
  then show ?thesis
    using set_output_data_value [of "begin" "end" ts1] by (rule conjI)
qed

text \<open>
  A request of two sub-requests whose second guest makes no call: the reply carries
  the byte 7, which the first guest wrote, for both.
\<close>

lemma silent_second_run:
  "fst (query modules (clock_store 100 (\<lambda>w. False)) idle ([2] @ sub_request 1 @ sub_request 2))
     = Inr [2, 1, 7, 1, 7]"
  "trace (snd (query modules (clock_store 100 (\<lambda>w. False)) idle
     ([2] @ sub_request 1 @ sub_request 2)))
     = [ev_open_snapshot 0, ev_run_query (Some 0) \<lparr>name_value = 1\<rparr> [], ev_set_output [7],
        ev_fork_check (Some 0) False, ev_run_query (Some 0) \<lparr>name_value = 2\<rparr> [],
        ev_fork_check (Some 0) False, ev_release]"
  by (simp_all add: example_steps idle_def)

theorem reply_blobs_witness:
  "fst (query modules (clock_store 100 (\<lambda>w. False)) idle ([2] @ sub_request 1 @ sub_request 2))
     = Inr [2, 1, 7, 1, 7]
   \<and> (\<exists>atts s ps n request_bin.
       [ev_open_snapshot 0, ev_run_query (Some 0) \<lparr>name_value = 1\<rparr> [], ev_set_output [7],
        ev_fork_check (Some 0) False, ev_run_query (Some 0) \<lparr>name_value = 2\<rparr> [],
        ev_fork_check (Some 0) False, ev_release]
         = trace idle @ attempts_trace atts @ attempt_trace s ps
     \<and> read_varuint32 ([2] @ sub_request 1 @ sub_request 2) = Inr (n, request_bin)
     \<and> length ps = unat n
     \<and> decode_sub_requests (unat n) request_bin = Some (map served ps)
     \<and> list_all (\<lambda>p. ending p = Some False) ps
     \<and> [2, 1, 7, 1, 7] = varuint32_bytes n
           @ concat (map (\<lambda>b. varuint32_bytes (of_nat (length b)) @ b)
               (blobs_from (last (reply idle # concat (map written (concat (map snd atts)))))
                  (map written ps))))"
proof -
  let ?B = "[2] @ sub_request 1 @ sub_request 2"
  let ?X = "query modules (clock_store 100 (\<lambda>w. False)) idle ?B"
  from reply_blobs [OF silent_second_run(1), THEN conjunct1]
  obtain atts s ps n request_bin buf blobs where
    p: "trace (snd ?X) = trace idle @ attempts_trace atts @ attempt_trace s ps"
      "read_varuint32 ?B = Inr (n, request_bin)"
      "length ps = unat n"
      "decode_sub_requests (unat n) request_bin = Some (map served ps)"
      "list_all (\<lambda>p. ending p = Some False) ps"
      "buf = last (reply idle # concat (map written (concat (map snd atts))))"
      "blobs = blobs_from buf (map written ps)"
      "[2, 1, 7, 1, 7] = varuint32_bytes n
           @ concat (map (\<lambda>b. varuint32_bytes (of_nat (length b)) @ b) blobs)"
    by blast
  from p(1) have t: "[ev_open_snapshot 0, ev_run_query (Some 0) \<lparr>name_value = 1\<rparr> [],
        ev_set_output [7], ev_fork_check (Some 0) False,
        ev_run_query (Some 0) \<lparr>name_value = 2\<rparr> [],
        ev_fork_check (Some 0) False, ev_release]
         = trace idle @ attempts_trace atts @ attempt_trace s ps"
    unfolding silent_second_run(2) .
  from p(8) have e: "[2, 1, 7, 1, 7] = varuint32_bytes n
           @ concat (map (\<lambda>b. varuint32_bytes (of_nat (length b)) @ b)
               (blobs_from (last (reply idle # concat (map written (concat (map snd atts)))))
                  (map written ps)))"
    unfolding p(7) p(6) .
  from t p(2,3,4,5) e have "\<exists>atts s ps n request_bin.
       [ev_open_snapshot 0, ev_run_query (Some 0) \<lparr>name_value = 1\<rparr> [], ev_set_output [7],
        ev_fork_check (Some 0) False, ev_run_query (Some 0) \<lparr>name_value = 2\<rparr> [],
        ev_fork_check (Some 0) False, ev_release]
         = trace idle @ attempts_trace atts @ attempt_trace s ps
     \<and> read_varuint32 ?B = Inr (n, request_bin)
     \<and> length ps = unat n
     \<and> decode_sub_requests (unat n) request_bin = Some (map served ps)
     \<and> list_all (\<lambda>p. ending p = Some False) ps
     \<and> [2, 1, 7, 1, 7] = varuint32_bytes n
           @ concat (map (\<lambda>b. varuint32_bytes (of_nat (length b)) @ b)
               (blobs_from (last (reply idle # concat (map written (concat (map snd atts)))))
                  (map written ps)))"
    by (intro exI [of _ atts] exI [of _ s] exI [of _ ps] exI [of _ n]
        exI [of _ request_bin] conjI)
  with silent_second_run(1) show ?thesis
    by (rule conjI)
qed

text \<open>
  The claim as the spec states it fails for a guest run that does not call
  \<^verbatim>\<open>set_output_data\<close>. In both requests the second sub-request is served by the
  silent guest, which writes nothing; its blob in the reply is the byte 7 in one and
  the bytes 8 and 9 in the other, which the guest of the first sub-request wrote.
\<close>

theorem reply_blobs_counterexample:
  "fst (query modules (clock_store 100 (\<lambda>w. False)) idle ([2] @ sub_request 1 @ sub_request 2))
     = Inr [2, 1, 7, 1, 7]
   \<and> trace (snd (query modules (clock_store 100 (\<lambda>w. False)) idle
        ([2] @ sub_request 1 @ sub_request 2)))
     = [ev_open_snapshot 0, ev_run_query (Some 0) \<lparr>name_value = 1\<rparr> [], ev_set_output [7],
        ev_fork_check (Some 0) False, ev_run_query (Some 0) \<lparr>name_value = 2\<rparr> [],
        ev_fork_check (Some 0) False, ev_release]
   \<and> fst (query modules (clock_store 100 (\<lambda>w. False)) idle
        ([2] @ sub_request 3 @ sub_request 2)) = Inr [2, 2, 8, 9, 2, 8, 9]
   \<and> trace (snd (query modules (clock_store 100 (\<lambda>w. False)) idle
        ([2] @ sub_request 3 @ sub_request 2)))
     = [ev_open_snapshot 0, ev_run_query (Some 0) \<lparr>name_value = 3\<rparr> [],
        ev_set_output [8, 9], ev_fork_check (Some 0) False,
        ev_run_query (Some 0) \<lparr>name_value = 2\<rparr> [],
        ev_fork_check (Some 0) False, ev_release]"
  by (simp add: example_steps idle_def)

section \<open>The host calls\<close>

lemma check_bounds_range: "check_bounds begin (begin + n) = Inr ()"
  by (simp add: check_bounds_def)

lemma alloc_value:
  "alloc g cb_alloc_data cb_alloc sz ts =
     (case func_table g cb_alloc cb_alloc_data sz (wa ts) of
        Inl e \<Rightarrow> (Inl e, ts)
      | Inr (result, wa') \<Rightarrow>
          if result = None \<or> \<not> is_i32 (the result)
          then (Inl bad_callback_return, ts\<lparr>wa := wa'\<rparr>)
          else (Inr (unat (to_ui32 (the result))), ts\<lparr>wa := wa'\<rparr>))"
  by (simp add: alloc_def check_bounds_range Let_def split: sum.split option.split prod.split)

lemma memcpy_outside:
  "a < dest \<or> dest + length src \<le> a \<Longrightarrow> mem (memcpy w dest src) a = mem w a"
  by (auto simp add: memcpy_def)

lemma memcpy_size: "mem_size (memcpy w dest src) = mem_size w"
  by (simp add: memcpy_def)

section \<open>Guest pointers and the bounds of the linear memory\<close>

text \<open>
  Claim C1. The code does not do what the claim says: \<^verbatim>\<open>check_bounds\<close> compares the
  two pointers and nothing else (its own comment reads \<^verbatim>\<open>todo: check bounds\<close>), and
  no host call looks at the size of the linear memory. Whatever that size is, a range
  of \<^verbatim>\<open>n\<close> bytes from any address passes the check; \<^verbatim>\<open>set_output_data\<close> returns
  normally with the reply buffer assigned from it, \<^verbatim>\<open>print_range\<close> writes it to the
  console, and the check in \<^verbatim>\<open>alloc\<close>, on \<^verbatim>\<open>begin\<close> and \<^verbatim>\<open>begin + size\<close>, never
  raises: \<^verbatim>\<open>alloc\<close> returns whatever offset the callback answered.
\<close>

theorem bounds_unchecked:
  "check_bounds begin (begin + n) = Inr ()
   \<and> set_output_data begin (begin + n) ts =
       (Inr (), ts\<lparr>reply := read_bytes (wa ts) begin (begin + n),
                   trace := trace ts @ [ev_set_output (read_bytes (wa ts) begin (begin + n))]\<rparr>)
   \<and> print_range begin (begin + n) ts =
       (Inr (), if console ts then ts\<lparr>cerr := cerr ts @ read_bytes (wa ts) begin (begin + n)\<rparr>
                else ts)
   \<and> alloc g cb_alloc_data cb_alloc sz ts =
       (case func_table g cb_alloc cb_alloc_data sz (wa ts) of
          Inl e \<Rightarrow> (Inl e, ts)
        | Inr (result, wa') \<Rightarrow>
            if result = None \<or> \<not> is_i32 (the result)
            then (Inl bad_callback_return, ts\<lparr>wa := wa'\<rparr>)
            else (Inr (unat (to_ui32 (the result))), ts\<lparr>wa := wa'\<rparr>))"
proof (intro conjI)
  show "check_bounds begin (begin + n) = Inr ()"
    by (rule check_bounds_range)
  show "set_output_data begin (begin + n) ts =
       (Inr (), ts\<lparr>reply := read_bytes (wa ts) begin (begin + n),
                   trace := trace ts @ [ev_set_output (read_bytes (wa ts) begin (begin + n))]\<rparr>)"
    by (simp add: set_output_data_def check_bounds_range Let_def)
  show "print_range begin (begin + n) ts =
       (Inr (), if console ts then ts\<lparr>cerr := cerr ts @ read_bytes (wa ts) begin (begin + n)\<rparr>
                else ts)"
    by (simp add: print_range_def check_bounds_range)
  show "alloc g cb_alloc_data cb_alloc sz ts =
       (case func_table g cb_alloc cb_alloc_data sz (wa ts) of
          Inl e \<Rightarrow> (Inl e, ts)
        | Inr (result, wa') \<Rightarrow>
            if result = None \<or> \<not> is_i32 (the result)
            then (Inl bad_callback_return, ts\<lparr>wa := wa'\<rparr>)
            else (Inr (unat (to_ui32 (the result))), ts\<lparr>wa := wa'\<rparr>))"
    by (rule alloc_value)
qed

text \<open>
  On a guest with a linear memory of 8 bytes: \<^verbatim>\<open>set_output_data\<close> on the addresses
  100 to 104 returns normally and the reply buffer holds four bytes from outside the
  memory; \<^verbatim>\<open>print_range\<close> prints two of them; and \<^verbatim>\<open>get_database_status\<close>, whose
  callback answers offset 16, writes the three bytes of the status there.
\<close>

theorem bounds_unchecked_witness:
  "mem_size (wa cramped) = 8
   \<and> fst (set_output_data 100 (100 + 4) cramped) = Inr ()
   \<and> reply (snd (set_output_data 100 (100 + 4) cramped)) = [0xAA, 0xAA, 0xAA, 0xAA]
   \<and> fst (print_range 100 (100 + 2) cramped) = Inr ()
   \<and> cerr (snd (print_range 100 (100 + 2) cramped)) = [0xAA, 0xAA]
   \<and> alloc (writer [7]) 0 0 3 cramped = (Inr 16, cramped)
   \<and> fst (get_database_status (writer [7]) 0 0 cramped) = Inr ()
   \<and> read_bytes (wa (snd (get_database_status (writer [7]) 0 0 cramped))) 16 19 = [1, 2, 3]"
proof -
  note t = bounds_unchecked [of 100 4 cramped "writer [7]" 0 0 3]
  have r: "read_bytes (wa cramped) 100 (100 + n) = replicate n 0xAA" for n
    by (rule nth_equalityI) (simp_all add: read_bytes_def cramped_def)
  have a: "alloc (writer [7]) 0 0 3 cramped = (Inr 16, cramped)"
    using t [THEN conjunct2, THEN conjunct2, THEN conjunct2]
    by (simp add: writer_def cramped_def idle_def)
  have "mem_size (wa cramped) = 8"
    by (simp add: cramped_def)
  moreover have "fst (set_output_data 100 (100 + 4) cramped) = Inr ()"
    "reply (snd (set_output_data 100 (100 + 4) cramped)) = [0xAA, 0xAA, 0xAA, 0xAA]"
    using t [THEN conjunct2, THEN conjunct1] r [of 4]
    by (simp_all add: numeral_eq_Suc)
  moreover have "fst (print_range 100 (100 + 2) cramped) = Inr ()"
    "cerr (snd (print_range 100 (100 + 2) cramped)) = [0xAA, 0xAA]"
    using bounds_unchecked [of 100 2 cramped, THEN conjunct2, THEN conjunct2, THEN conjunct1]
      r [of 2]
    by (simp_all add: numeral_eq_Suc) (simp_all add: cramped_def idle_def)
  moreover have "fst (get_database_status (writer [7]) 0 0 cramped) = Inr ()"
    "read_bytes (wa (snd (get_database_status (writer [7]) 0 0 cramped))) 16 19 = [1, 2, 3]"
    using a read_back [of "wa cramped" 16 "[1, 2, 3]"]
    by (simp_all add: get_database_status_def cramped_def idle_def)
  ultimately show ?thesis
    using a by (intro conjI)
qed

section \<open>The allocation callback\<close>

text \<open>
  Claim C7. Let the guest function at table index \<^verbatim>\<open>cb_alloc\<close>, invoked with
  \<^verbatim>\<open>cb_alloc_data\<close> and the size of the payload, return \<^verbatim>\<open>result\<close> and leave the
  memory \<^verbatim>\<open>wa'\<close>. Each of \<^verbatim>\<open>get_database_status\<close> (payload: the database status),
  \<^verbatim>\<open>get_input_data\<close> (payload: the rest of the request) and \<^verbatim>\<open>query_database\<close>
  (payload: the answer of the store) makes exactly that invocation; it
  fails with \<^verbatim>\<open>bad_callback_return\<close> when \<^verbatim>\<open>result\<close> is no value or not an \<^verbatim>\<open>i32\<close>,
  and otherwise succeeds with the payload copied to the returned offset: the bytes
  from there are the payload, as many as the size passed to the callback, and every
  byte outside stays as the callback left it. Sizes are 32-bit: the payload is
  shorter than \<^verbatim>\<open>2 ^ 32\<close> bytes.
\<close>

theorem cb_alloc_protocol:
  assumes "length payload < 2 ^ 32"
    and "func_table g cb_alloc cb_alloc_data (of_nat (length payload)) (wa ts) = Inr (result, wa')"
  shows "(database_status ts = payload \<longrightarrow>
       get_database_status g cb_alloc_data cb_alloc ts =
         (if result = None \<or> \<not> is_i32 (the result)
          then (Inl bad_callback_return, ts\<lparr>wa := wa'\<rparr>)
          else (Inr (), ts\<lparr>wa := memcpy wa' (unat (to_ui32 (the result))) payload\<rparr>)))
   \<and> (request ts = payload \<longrightarrow>
       get_input_data g cb_alloc_data cb_alloc ts =
         (if result = None \<or> \<not> is_i32 (the result)
          then (Inl bad_callback_return, ts\<lparr>wa := wa'\<rparr>)
          else (Inr (), ts\<lparr>wa := memcpy wa' (unat (to_ui32 (the result))) payload\<rparr>)))
   \<and> (req_begin \<le> req_end \<and> query_session ts = Some s
        \<and> session_query_database iface s (read_bytes (wa ts) req_begin req_end)
             (head (fill_status ts)) (db ts) = (Inr payload, w') \<longrightarrow>
       query_database iface g req_begin req_end cb_alloc_data cb_alloc ts =
         (if result = None \<or> \<not> is_i32 (the result)
          then (Inl bad_callback_return, ts\<lparr>db := w', wa := wa'\<rparr>)
          else (Inr (), ts\<lparr>db := w',
                  wa := memcpy wa' (unat (to_ui32 (the result))) payload\<rparr>)))
   \<and> unat (of_nat (length payload) :: 32 word) = length payload
   \<and> read_bytes (memcpy wa' (unat (to_ui32 (the result))) payload)
        (unat (to_ui32 (the result)))
        (unat (to_ui32 (the result)) + unat (of_nat (length payload) :: 32 word)) = payload
   \<and> (a < unat (to_ui32 (the result))
        \<or> unat (to_ui32 (the result)) + length payload \<le> a \<longrightarrow>
       mem (memcpy wa' (unat (to_ui32 (the result))) payload) a = mem wa' a)"
proof -
  have sz: "unat (of_nat (length payload) :: 32 word) = length payload"
    using assms(1) by (simp add: unat_of_nat)
  have al: "alloc g cb_alloc_data cb_alloc (of_nat (length payload)) ts =
      (if result = None \<or> \<not> is_i32 (the result)
       then (Inl bad_callback_return, ts\<lparr>wa := wa'\<rparr>)
       else (Inr (unat (to_ui32 (the result))), ts\<lparr>wa := wa'\<rparr>))"
    by (simp add: alloc_value assms(2))
  have "get_database_status g cb_alloc_data cb_alloc ts =
         (if result = None \<or> \<not> is_i32 (the result)
          then (Inl bad_callback_return, ts\<lparr>wa := wa'\<rparr>)
          else (Inr (), ts\<lparr>wa := memcpy wa' (unat (to_ui32 (the result))) payload\<rparr>))"
    if "database_status ts = payload"
    using that al by (simp add: get_database_status_def)
  moreover have "get_input_data g cb_alloc_data cb_alloc ts =
         (if result = None \<or> \<not> is_i32 (the result)
          then (Inl bad_callback_return, ts\<lparr>wa := wa'\<rparr>)
          else (Inr (), ts\<lparr>wa := memcpy wa' (unat (to_ui32 (the result))) payload\<rparr>))"
    if "request ts = payload"
    using that al by (simp add: get_input_data_def)
  moreover have "query_database iface g req_begin req_end cb_alloc_data cb_alloc ts =
         (if result = None \<or> \<not> is_i32 (the result)
          then (Inl bad_callback_return, ts\<lparr>db := w', wa := wa'\<rparr>)
          else (Inr (), ts\<lparr>db := w',
                  wa := memcpy wa' (unat (to_ui32 (the result))) payload\<rparr>))"
    if "req_begin \<le> req_end" "query_session ts = Some s"
      "session_query_database iface s (read_bytes (wa ts) req_begin req_end)
             (head (fill_status ts)) (db ts) = (Inr payload, w')"
  proof -
    have "func_table g cb_alloc cb_alloc_data (of_nat (length payload)) (wa (ts\<lparr>db := w'\<rparr>))
        = Inr (result, wa')"
      using assms(2) by simp
    then have "alloc g cb_alloc_data cb_alloc (of_nat (length payload)) (ts\<lparr>db := w'\<rparr>) =
      (if result = None \<or> \<not> is_i32 (the result)
       then (Inl bad_callback_return, ts\<lparr>db := w', wa := wa'\<rparr>)
       else (Inr (unat (to_ui32 (the result))), ts\<lparr>db := w', wa := wa'\<rparr>))"
      by (simp add: alloc_value)
    with that show ?thesis
      by (simp add: query_database_def check_bounds_def)
  qed
  moreover note sz
  moreover have "read_bytes (memcpy wa' (unat (to_ui32 (the result))) payload)
        (unat (to_ui32 (the result)))
        (unat (to_ui32 (the result)) + unat (of_nat (length payload) :: 32 word)) = payload"
    unfolding sz by (rule read_back)
  moreover have "mem (memcpy wa' (unat (to_ui32 (the result))) payload) a = mem wa' a"
    if "a < unat (to_ui32 (the result)) \<or> unat (to_ui32 (the result)) + length payload \<le> a"
    using that by (rule memcpy_outside)
  ultimately show ?thesis
    by blast
qed

text \<open>
  The status of three bytes goes to offset 16, where the callback of the writer
  points; a callback that answers an \<^verbatim>\<open>i64\<close>, or nothing, makes the call fail.
\<close>

theorem cb_alloc_protocol_witness:
  "length [1, 2, 3 :: byte] < 2 ^ 32
   \<and> func_table (writer [7]) 0 0 (of_nat (length [1, 2, 3 :: byte])) (wa cramped)
       = Inr (Some (i32_const 16), wa cramped)
   \<and> database_status cramped = [1, 2, 3]
   \<and> get_database_status (writer [7]) 0 0 cramped
       = (Inr (), cramped\<lparr>wa := memcpy (wa cramped) 16 [1, 2, 3]\<rparr>)
   \<and> read_bytes (memcpy (wa cramped) 16 [1, 2, 3]) 16 19 = [1, 2, 3]
   \<and> mem (memcpy (wa cramped) 16 [1, 2, 3]) 19 = 0xAA
   \<and> fst (get_database_status wide_alloc 0 0 cramped) = Inl bad_callback_return
   \<and> fst (get_database_status void_alloc 0 0 cramped) = Inl bad_callback_return"
proof -
  have n: "length [1, 2, 3 :: byte] < 2 ^ 32"
    by simp
  have f: "func_table (writer [7]) 0 0 (of_nat (length [1, 2, 3 :: byte])) (wa cramped)
       = Inr (Some (i32_const 16), wa cramped)"
    by (simp add: writer_def)
  have d: "database_status cramped = [1, 2, 3]"
    by (simp add: cramped_def)
  note t = cb_alloc_protocol [OF n f, where a = 19]
  have "get_database_status (writer [7]) 0 0 cramped
       = (Inr (), cramped\<lparr>wa := memcpy (wa cramped) 16 [1, 2, 3]\<rparr>)"
    using t [THEN conjunct1] d by simp
  moreover have "read_bytes (memcpy (wa cramped) 16 [1, 2, 3]) 16 19 = [1, 2, 3]"
    using t [THEN conjunct2, THEN conjunct2, THEN conjunct2, THEN conjunct2, THEN conjunct1]
    by simp
  moreover have "mem (memcpy (wa cramped) 16 [1, 2, 3]) 19 = 0xAA"
    using t [THEN conjunct2, THEN conjunct2, THEN conjunct2, THEN conjunct2, THEN conjunct2]
    by (simp add: cramped_def)
  moreover have "fst (get_database_status wide_alloc 0 0 cramped) = Inl bad_callback_return"
    using cb_alloc_protocol [OF n, of wide_alloc 0 0 cramped "Some (i64_const 16)" "wa cramped",
        THEN conjunct1] d
    by (simp add: wide_alloc_def)
  moreover have "fst (get_database_status void_alloc 0 0 cramped) = Inl bad_callback_return"
    using cb_alloc_protocol [OF n, of void_alloc 0 0 cramped None "wa cramped",
        THEN conjunct1] d
    by (simp add: void_alloc_def)
  ultimately show ?thesis
    using n f d by (intro conjI)
qed

section \<open>Rows of a query result\<close>

lemma loop_stops:
  "decode_rows read_row unpack (length rows) ds = Some rows \<Longrightarrow> length rows \<le> n
    \<Longrightarrow> until_false f rows st = Some (False, st')
    \<Longrightarrow> for_each_query_result_loop read_row unpack f n ds st = Some (False, st')"
proof (induction rows arbitrary: n ds st)
  case Nil
  then show ?case
    by simp
next
  case (Cons r rows)
  then obtain m where n: "n = Suc m"
    by (cases n) auto
  from Cons.prems(1) obtain row ds' row' where
    d: "read_row ds = Some (row, ds')" "unpack row = Some (r, row')"
    "decode_rows read_row unpack (length rows) ds' = Some rows"
    by (auto split: option.splits)
  from Cons.prems(3) obtain ok st1 where f: "f r st = Some (ok, st1)"
    by (auto split: option.splits)
  show ?case
  proof (cases ok)
    case True
    with Cons.prems f have "until_false f rows st1 = Some (False, st')"
      by simp
    with Cons.IH [OF d(3), of m st1] Cons.prems(2) n d f True show ?thesis
      by simp
  next
    case False
    with Cons.prems f d n show ?thesis
      by simp
  qed
qed

lemma loop_all:
  "decode_rows read_row unpack n ds = Some rows
    \<Longrightarrow> for_each_query_result_loop read_row unpack f n ds st = until_false f rows st"
proof (induction n arbitrary: ds st rows)
  case 0
  then show ?case
    by simp
next
  case (Suc n)
  from Suc.prems obtain row ds' r row' rs where
    d: "read_row ds = Some (row, ds')" "unpack row = Some (r, row')"
    "decode_rows read_row unpack n ds' = Some rs" "rows = r # rs"
    by (auto split: option.splits)
  show ?case
    using d Suc.IH [OF d(3)] by (simp split: option.split)
qed

lemma decode_rows_length:
  "decode_rows read_row unpack n ds = Some rows \<Longrightarrow> length rows = n"
  by (induction n arbitrary: ds rows) (auto split: option.splits)

lemma until_false_first:
  "until_false g before st = Some (True, st1) \<Longrightarrow> g row st1 = Some (False, st2)
    \<Longrightarrow> until_false g (before @ row # after) st = Some (False, st2)"
  by (induction before arbitrary: st) (auto split: option.splits if_splits)

lemma lambda_value:
  "for_each_contract_row_lambda unpack_value f row st =
     (if \<not> row_present row \<or> row_value row = [] then f row None st
      else (case unpack_value (row_value row) of
              None \<Rightarrow> None
            | Some (p, rest) \<Rightarrow> f (row\<lparr>row_value := rest\<rparr>) (Some p) st))"
  by (auto simp add: for_each_contract_row_lambda_def split: option.splits)

text \<open>
  Claim C9. For every row and every callable \<^verbatim>\<open>f\<close>, what \<^verbatim>\<open>for_each_contract_row\<close>
  does with the row is: call \<^verbatim>\<open>f\<close> with the null pointer when the row is not present
  or its value is empty; otherwise unpack the value and call \<^verbatim>\<open>f\<close> with a pointer to
  the data (aborting when the value does not unpack). Over a result whose size reads
  as \<^verbatim>\<open>sz\<close> and whose first rows decode to \<^verbatim>\<open>rows\<close>: when going through \<^verbatim>\<open>rows\<close> in
  order some call returns false, \<^verbatim>\<open>for_each_contract_row\<close> returns false with the
  state that call left, whatever follows in the result; going through rows stops at
  the first row for which the call returns false; and when \<^verbatim>\<open>rows\<close> are all the rows
  of the result, \<^verbatim>\<open>for_each_contract_row\<close> is going through them until a call
  returns false.
\<close>

theorem for_each_contract_row_calls:
  assumes "read_size bytes = Some (sz, ds)"
    and "decode_rows read_row unpack (length rows) ds = Some rows"
    and "length rows \<le> unat sz"
  shows "for_each_contract_row_lambda unpack_value f row st0 =
       (if \<not> row_present row \<or> row_value row = [] then f row None st0
        else (case unpack_value (row_value row) of
                None \<Rightarrow> None
              | Some (p, rest) \<Rightarrow> f (row\<lparr>row_value := rest\<rparr>) (Some p) st0))
   \<and> (until_false (for_each_contract_row_lambda unpack_value f) rows st = Some (False, st') \<longrightarrow>
        for_each_contract_row read_size read_row unpack unpack_value bytes f st
          = Some (False, st'))
   \<and> (until_false (for_each_contract_row_lambda unpack_value f) before st = Some (True, st1)
        \<and> for_each_contract_row_lambda unpack_value f row st1 = Some (False, st2) \<longrightarrow>
        until_false (for_each_contract_row_lambda unpack_value f) (before @ row # after) st
          = Some (False, st2))
   \<and> (length rows = unat sz \<longrightarrow>
        for_each_contract_row read_size read_row unpack unpack_value bytes f st
          = until_false (for_each_contract_row_lambda unpack_value f) rows st)"
proof (intro conjI impI)
  show "for_each_contract_row_lambda unpack_value f row st0 =
       (if \<not> row_present row \<or> row_value row = [] then f row None st0
        else (case unpack_value (row_value row) of
                None \<Rightarrow> None
              | Some (p, rest) \<Rightarrow> f (row\<lparr>row_value := rest\<rparr>) (Some p) st0))"
    by (rule lambda_value)
  show "for_each_contract_row read_size read_row unpack unpack_value bytes f st
      = Some (False, st')"
    if "until_false (for_each_contract_row_lambda unpack_value f) rows st = Some (False, st')"
    using loop_stops [OF assms(2,3) that] assms(1)
    by (simp add: for_each_contract_row_def for_each_query_result_def)
  show "until_false (for_each_contract_row_lambda unpack_value f) (before @ row # after) st
      = Some (False, st2)"
    if "until_false (for_each_contract_row_lambda unpack_value f) before st = Some (True, st1)
        \<and> for_each_contract_row_lambda unpack_value f row st1 = Some (False, st2)"
    using that by (simp add: until_false_first)
  show "for_each_contract_row read_size read_row unpack unpack_value bytes f st
      = until_false (for_each_contract_row_lambda unpack_value f) rows st"
    if "length rows = unat sz"
    using loop_all [of read_row unpack "unat sz" ds rows] assms that
    by (simp add: for_each_contract_row_def for_each_query_result_def)
qed

text \<open>
  The four rows of \<^verbatim>\<open>five_rows\<close>: present with the value 5, present with no value,
  absent with the value 9, present with the value 0. The callable is given 5, then
  the null pointer twice, then 0, where it returns false; the fifth row, which is
  missing, is not read.
\<close>

lemma decode_rows_numeral:
  "decode_rows read_row unpack (numeral k) ds =
     (case read_row ds of
        None \<Rightarrow> None
      | Some (row, ds') \<Rightarrow>
          (case unpack row of
             None \<Rightarrow> None
           | Some (r, row') \<Rightarrow>
               (case decode_rows read_row unpack (pred_numeral k) ds' of
                  None \<Rightarrow> None
                | Some rs \<Rightarrow> Some (r # rs))))"
  by (simp add: numeral_eq_Suc)

lemma wire_row_small:
  "wire_row [] = None"
  "wire_row (1 # a # rest) = Some ([a], rest)"
  "wire_row (2 # a # b # rest) = Some ([a, b], rest)"
  by (simp_all add: wire_row_def read_varuint32_def read_input_buffer_def)

lemma five_rows_size: "wire_size five_rows = Some (5, [2, 1, 5, 1, 1, 2, 0, 9, 2, 1, 0])"
  by (simp add: five_rows_def wire_size_def read_varuint32_def)

lemma five_rows_decoded:
  "decode_rows wire_row flagged_row 4 [2, 1, 5, 1, 1, 2, 0, 9, 2, 1, 0]
     = Some [flagged True [5], flagged True [], flagged False [9], flagged True [0]]"
  "decode_rows wire_row flagged_row 5 [2, 1, 5, 1, 1, 2, 0, 9, 2, 1, 0] = None"
  by (simp_all add: decode_rows_numeral wire_row_small)

lemma five_rows_calls:
  "until_false (for_each_contract_row_lambda one_byte recorder)
       [flagged True [5], flagged True [], flagged False [9], flagged True [0]] []
     = Some (False, [Some 5, None, None, Some 0])"
  by (simp add: for_each_contract_row_lambda_def recorder_def flagged_def)

theorem for_each_contract_row_calls_witness:
  "wire_size five_rows = Some (5, [2, 1, 5, 1, 1, 2, 0, 9, 2, 1, 0])
   \<and> decode_rows wire_row flagged_row 4 [2, 1, 5, 1, 1, 2, 0, 9, 2, 1, 0]
       = Some [flagged True [5], flagged True [], flagged False [9], flagged True [0]]
   \<and> decode_rows wire_row flagged_row 5 [2, 1, 5, 1, 1, 2, 0, 9, 2, 1, 0] = None
   \<and> until_false (for_each_contract_row_lambda one_byte recorder)
       [flagged True [5], flagged True [], flagged False [9], flagged True [0]] []
       = Some (False, [Some 5, None, None, Some 0])
   \<and> for_each_contract_row wire_size wire_row flagged_row one_byte five_rows recorder []
       = Some (False, [Some 5, None, None, Some 0])"
proof -
  let ?rows = "[flagged True [5], flagged True [], flagged False [9], flagged True [0]]"
  have n: "length ?rows = 4"
    by simp
  have d: "decode_rows wire_row flagged_row (length ?rows) [2, 1, 5, 1, 1, 2, 0, 9, 2, 1, 0]
      = Some ?rows"
    unfolding n by (rule five_rows_decoded(1))
  have l: "length ?rows \<le> unat (5 :: 32 word)"
    by simp
  note t = for_each_contract_row_calls [where read_size = wire_size and bytes = five_rows
      and sz = 5 and ds = "[2, 1, 5, 1, 1, 2, 0, 9, 2, 1, 0]" and read_row = wire_row
      and unpack = flagged_row and rows = ?rows and unpack_value = one_byte
      and f = recorder and st = "[]" and st' = "[Some 5, None, None, Some 0]",
      OF five_rows_size d l]
  have "for_each_contract_row wire_size wire_row flagged_row one_byte five_rows recorder []
       = Some (False, [Some 5, None, None, Some 0])"
    by (rule t [THEN conjunct2, THEN conjunct1, THEN mp, OF five_rows_calls])
  with five_rows_size five_rows_decoded five_rows_calls show ?thesis
    by (intro conjI)
qed

end
